theory Spec2Isabelle
  imports Main "HOL-Library.Word"
begin

unbundle bit_operations_syntax

section \<open>Tiered buffer pool (proxy/bufferpool.go)\<close>

text \<open>
  A Go byte slice is seen by the pool only through its length and its capacity, so a
  buffer is a record of the two. \<open>make_bytes\<close> is Go's \<^verbatim>\<open>make([]byte, n)\<close>:
  length and capacity are both \<open>n\<close>.
\<close>

record buffer =
  buf_len :: nat
  buf_cap :: nat

definition make_bytes :: "nat \<Rightarrow> buffer" where
  "make_bytes n = \<lparr>buf_len = n, buf_cap = n\<rparr>"

text \<open>
  \<^verbatim>\<open>sync.Pool\<close>: a free list and the size its \<^verbatim>\<open>New\<close> function allocates.
  \<^verbatim>\<open>Pool.Get\<close> removes an arbitrary item, or calls \<^verbatim>\<open>New\<close> when it finds
  none; the choice is the argument \<open>pick\<close> (an index into the free list, any index out
  of range meaning that \<^verbatim>\<open>New\<close> is called).
\<close>

record Pool =
  items :: "buffer list"
  new_size :: nat

definition Pool_Get :: "nat \<Rightarrow> Pool \<Rightarrow> buffer \<times> Pool" where
  "Pool_Get pick pl =
     (if pick < length (items pl)
      then (items pl ! pick, pl\<lparr>items := take pick (items pl) @ drop (Suc pick) (items pl)\<rparr>)
      else (make_bytes (new_size pl), pl))"

definition Pool_Put :: "buffer \<Rightarrow> Pool \<Rightarrow> Pool" where
  "Pool_Put b pl = pl\<lparr>items := b # items pl\<rparr>"

record TieredBufferPool =
  small :: Pool
  medium :: Pool
  large :: Pool

definition NewTieredBufferPool :: TieredBufferPool where
  "NewTieredBufferPool =
     \<lparr>small = \<lparr>items = [], new_size = 512\<rparr>,
      medium = \<lparr>items = [], new_size = 4096\<rparr>,
      large = \<lparr>items = [], new_size = 65536\<rparr>\<rparr>"

text \<open>\<^verbatim>\<open>Get(size)\<close>: the switch on \<open>size\<close>, in the order of the source.\<close>

definition Get :: "nat \<Rightarrow> int \<Rightarrow> TieredBufferPool \<Rightarrow> buffer \<times> TieredBufferPool" where
  "Get pick sz p =
     (if sz \<le> 512 then (let (b, pl) = Pool_Get pick (small p) in (b, p\<lparr>small := pl\<rparr>))
      else if sz \<le> 4096 then (let (b, pl) = Pool_Get pick (medium p) in (b, p\<lparr>medium := pl\<rparr>))
      else (let (b, pl) = Pool_Get pick (large p) in (b, p\<lparr>large := pl\<rparr>)))"

text \<open>
  \<^verbatim>\<open>Put(buf)\<close>: a nil pointer is \<open>None\<close>; the switch on \<^verbatim>\<open>cap(*buf)\<close> has no
  default case, so any other capacity leaves the pool as it is.
\<close>

definition Put :: "buffer option \<Rightarrow> TieredBufferPool \<Rightarrow> TieredBufferPool" where
  "Put buf p =
     (case buf of
        None \<Rightarrow> p
      | Some b \<Rightarrow>
          if buf_cap b = 512 then p\<lparr>small := Pool_Put b (small p)\<rparr>
          else if buf_cap b = 4096 then p\<lparr>medium := Pool_Put b (medium p)\<rparr>
          else if buf_cap b = 65536 then p\<lparr>large := Pool_Put b (large p)\<rparr>
          else p)"

definition GetLarge :: "nat \<Rightarrow> TieredBufferPool \<Rightarrow> buffer \<times> TieredBufferPool" where
  "GetLarge pick p = (let (b, pl) = Pool_Get pick (large p) in (b, p\<lparr>large := pl\<rparr>))"

text \<open>
  The pools a program can hold: whatever a sequence of \<^verbatim>\<open>Get\<close>, \<^verbatim>\<open>GetLarge\<close> and
  \<^verbatim>\<open>Put\<close> calls leaves behind, starting from \<^verbatim>\<open>NewTieredBufferPool()\<close>. The
  buffers put back are arbitrary (also foreign ones, of any capacity).
\<close>

datatype pool_op = OpGet nat int | OpGetLarge nat | OpPut "buffer option"

fun apply_pool_op :: "TieredBufferPool \<Rightarrow> pool_op \<Rightarrow> TieredBufferPool" where
  "apply_pool_op p (OpGet pick sz) = snd (Get pick sz p)"
| "apply_pool_op p (OpGetLarge pick) = snd (GetLarge pick p)"
| "apply_pool_op p (OpPut buf) = Put buf p"

definition run_pool_ops :: "pool_op list \<Rightarrow> TieredBufferPool" where
  "run_pool_ops ops = foldl apply_pool_op NewTieredBufferPool ops"

text \<open>The tier a request of a given size is served from, as the constant of that tier.\<close>

definition tier_cap :: "int \<Rightarrow> nat" where
  "tier_cap sz = (if sz \<le> 512 then 512 else if sz \<le> 4096 then 4096 else 65536)"

text \<open>Invariant of a single free list: every item has the capacity that \<open>New\<close> allocates.\<close>

definition pool_ok :: "Pool \<Rightarrow> bool" where
  "pool_ok pl = list_all (\<lambda>b. buf_cap b = new_size pl) (items pl)"

definition tiers_ok :: "TieredBufferPool \<Rightarrow> bool" where
  "tiers_ok p =
     (pool_ok (small p) \<and> new_size (small p) = 512 \<and>
      pool_ok (medium p) \<and> new_size (medium p) = 4096 \<and>
      pool_ok (large p) \<and> new_size (large p) = 65536)"

section \<open>Go values used by the TCP listener (proxy/tcp.go)\<close>

type_synonym byte = "8 word"

text \<open>
  A Go \<^verbatim>\<open>error\<close>: the sentinels the code compares with or that the model raises, and
  \<open>New m\<close> for an error made by \<^verbatim>\<open>errors.New\<close> or \<^verbatim>\<open>fmt.Errorf\<close> with message
  \<open>m\<close>. \<open>Error\<close> is the method of that name.
\<close>

datatype go_error = EOF | ErrUnexpectedEOF | ErrClosed | New string

fun Error :: "go_error \<Rightarrow> string" where
  "Error EOF = ''EOF''"
| "Error ErrUnexpectedEOF = ''unexpected EOF''"
| "Error ErrClosed = ''use of closed network connection''"
| "Error (New m) = m"

text \<open>The verb \<^verbatim>\<open>%d\<close> of \<^verbatim>\<open>fmt\<close>: an integer in decimal.\<close>

fun show_nat :: "nat \<Rightarrow> string" where
  "show_nat n =
     (if n < 10 then [''0123456789'' ! n]
      else show_nat (n div 10) @ [''0123456789'' ! (n mod 10)])"

definition show_int :: "int \<Rightarrow> string" where
  "show_int i = (if i < 0 then CHR ''-'' # show_nat (nat (- i)) else show_nat (nat i))"

text \<open>A call that returns, or panics with a value.\<close>

datatype 'a outcome = Returns 'a | Panics string

subsection \<open>The connection: reading and writing frames\<close>

text \<open>
  The read side of a connection (an \<^verbatim>\<open>io.Reader\<close>): the bytes still to come, and the
  error every read returns once they are used up (\<open>EOF\<close> when the peer closed, any
  other error for a broken connection).
\<close>

record reader =
  pending :: "byte list"
  rd_err :: go_error

text \<open>
  \<^verbatim>\<open>io.ReadFull(r, p)\<close> with \<open>len(p) = n\<close>: the bytes stored in \<open>p\<close>, their number,
  the error, and the reader afterwards. Fewer than \<open>n\<close> bytes give the reader's error,
  \<open>EOF\<close> becoming \<open>ErrUnexpectedEOF\<close> when some bytes were read.
\<close>

definition ReadFull :: "reader \<Rightarrow> nat \<Rightarrow> (byte list \<times> int \<times> go_error option) \<times> reader" where
  "ReadFull r n =
     (if n \<le> length (pending r)
      then ((take n (pending r), int n, None), r\<lparr>pending := drop n (pending r)\<rparr>)
      else ((pending r, int (length (pending r)),
             Some (if pending r \<noteq> [] \<and> rd_err r = EOF then ErrUnexpectedEOF else rd_err r)),
            r\<lparr>pending := []\<rparr>))"

text \<open>\<^verbatim>\<open>binary.BigEndian\<close> on two bytes, and the two bytes of a \<^verbatim>\<open>uint16\<close>.\<close>

fun be16 :: "byte list \<Rightarrow> 16 word" where
  "be16 (b0 # b1 # _) = push_bit 8 (ucast b0) OR ucast b1"
| "be16 _ = 0"

definition put16 :: "16 word \<Rightarrow> byte list" where
  "put16 w = [ucast (drop_bit 8 w), ucast w]"

definition maxTCPSize :: int where
  "maxTCPSize = 65535"

text \<open>
  \<^verbatim>\<open>readTCP(r, buf)\<close>: the pair the function returns, the bytes it stored at the front
  of \<open>buf\<close>, and the reader afterwards. \<open>length\<close> is a \<^verbatim>\<open>uint16\<close>, and the constant
  \<open>maxTCPSize\<close> is compared with it at that type. The slice expression
  \<^verbatim>\<open>buf[:length]\<close> panics when \<open>length\<close> exceeds the capacity of \<open>buf\<close>.
\<close>

definition readTCP ::
  "reader \<Rightarrow> buffer \<Rightarrow> ((int \<times> go_error option) \<times> byte list \<times> reader) outcome" where
  "readTCP r buf =
     (case ReadFull r 2 of
        ((hdr, n, Some err), r1) \<Rightarrow> Returns ((- 1, Some err), [], r1)
      | ((hdr, n, None), r1) \<Rightarrow>
          (let len = be16 hdr in
           if len > word_of_int maxTCPSize
           then Returns ((- 1, Some (New ''message too large'')), [], r1)
           else if buf_cap buf < unat len then Panics ''slice bounds out of range''
           else (case ReadFull r1 (unat len) of
                   ((d, m, e), r2) \<Rightarrow> Returns ((m, e), d, r2))))"

text \<open>
  The connection \<open>c\<close>: its read side, the bytes that reached the peer so far, the number
  of \<^verbatim>\<open>Write\<close> calls made on it while open, and whether \<^verbatim>\<open>c.Close()\<close> has run.
\<close>

record conn =
  rd :: reader
  wrote :: "byte list"
  n_writes :: nat
  c_closed :: bool

text \<open>
  One call \<^verbatim>\<open>c.Write(bs)\<close>. On a closed connection it fails and sends nothing.
  Otherwise the network decides: \<open>wres k\<close> is the fate of the \<open>k\<close>-th call, \<open>None\<close>
  when all bytes are sent, \<open>Some (n, er)\<close> when the call fails with \<open>er\<close> after
  \<open>n\<close> bytes. The bytes of one call are sent together; those of two calls need not be.
\<close>

definition Conn_Write ::
  "(nat \<Rightarrow> (nat \<times> go_error) option) \<Rightarrow> conn \<Rightarrow> byte list \<Rightarrow> conn \<times> go_error option" where
  "Conn_Write wres c bs =
     (if c_closed c then (c, Some ErrClosed)
      else (case wres (n_writes c) of
              None \<Rightarrow> (c\<lparr>wrote := wrote c @ bs, n_writes := Suc (n_writes c)\<rparr>, None)
            | Some (n, er) \<Rightarrow>
                (c\<lparr>wrote := wrote c @ take n bs, n_writes := Suc (n_writes c)\<rparr>, Some er)))"

text \<open>
  \<^verbatim>\<open>writeTCP(c, buf)\<close> run without interruption: \<^verbatim>\<open>binary.Write\<close> makes one
  \<^verbatim>\<open>Write\<close> call with the two bytes of \<^verbatim>\<open>uint16(len(buf))\<close>, and only if that
  succeeds \<^verbatim>\<open>c.Write(buf)\<close> follows. Nothing holds the connection between the two
  calls, so in the transition system below each is a step of its own.
\<close>

definition writeTCP ::
  "(nat \<Rightarrow> (nat \<times> go_error) option) \<Rightarrow> conn \<Rightarrow> byte list \<Rightarrow> conn \<times> go_error option" where
  "writeTCP wres c buf =
     (case Conn_Write wres c (put16 (of_nat (length buf))) of
        (c1, Some er) \<Rightarrow> (c1, Some er)
      | (c1, None) \<Rightarrow> Conn_Write wres c1 buf)"

subsection \<open>Queries, the resolver and the log\<close>

text \<open>A Go string is a sequence of bytes; names are kept as such.\<close>

record Query =
  q_ID :: "16 word"
  q_Name :: "byte list"
  q_Type :: nat
  q_Class :: nat
  q_PeerIP :: string
  q_Payload :: "byte list"

record ResolveInfo =
  ri_Profile :: string
  ri_FromCache :: bool
  ri_Transport :: string

definition zero_ResolveInfo :: ResolveInfo where
  "zero_ResolveInfo = \<lparr>ri_Profile = [], ri_FromCache = False, ri_Transport = []\<rparr>"

definition zero_Query :: Query where
  "zero_Query = \<lparr>q_ID = 0, q_Name = [], q_Type = 0, q_Class = 0, q_PeerIP = [], q_Payload = []\<rparr>"

text \<open>The record given to \<^verbatim>\<open>p.logQuery\<close> (without the duration, which is wall-clock time).\<close>

record QueryInfo =
  qi_PeerIP :: string
  qi_Protocol :: string
  qi_Type :: nat
  qi_Name :: "byte list"
  qi_QuerySize :: int
  qi_ResponseSize :: int
  qi_Profile :: string
  qi_FromCache :: bool
  qi_UpstreamTransport :: string
  qi_Error :: "go_error option"

text \<open>A DNS message as the codec sees it, before it is packed into bytes.\<close>

record dns_message =
  m_ID :: "16 word"
  m_Response :: bool
  m_RCode :: nat
  m_Questions :: "(byte list \<times> nat \<times> nat) list"
  m_Answers :: "byte list list"
  m_Authorities :: "byte list list"
  m_Additionals :: "byte list list"

definition RCodeServerFailure :: nat where
  "RCodeServerFailure = 2"

text \<open>
  What \<^verbatim>\<open>serveTCPConn\<close> is given from outside this file: \<^verbatim>\<open>query.New\<close> (with the
  two addresses of the connection), the resolver \<^verbatim>\<open>p.Resolve\<close> (its result, the bytes
  it left in the response buffer, or a panic; the first argument numbers the queries of
  the connection, since a resolver need not answer the same query twice alike), the codec
  that packs a message, the text \<^verbatim>\<open>runtime.Stack\<close> returns, the capacity of the
  channel \<open>inflightRequests\<close>, and the fate of each \<^verbatim>\<open>Write\<close> on the connection.
\<close>

record env =
  query_New :: "byte list \<Rightarrow> Query \<times> go_error option"
  Resolve :: "nat \<Rightarrow> Query \<Rightarrow> (int \<times> ResolveInfo \<times> go_error option \<times> byte list) outcome"
  pack :: "dns_message \<Rightarrow> byte list"
  Stack :: string
  capacity :: nat
  Write_result :: "nat \<Rightarrow> (nat \<times> go_error) option"

text \<open>
  Modelled from the spec: \<^verbatim>\<open>replyRCode\<close> is called by \<^verbatim>\<open>serveTCPConn\<close> and is not
  among the sources. The spec has it "synthesize a minimal SERVER_FAILURE response reusing
  the original question section": a response with the query's ID, the given code, the
  question of the query and no record, packed into the buffer; the result is the number
  of bytes and the bytes.
\<close>

definition replyRCode :: "(dns_message \<Rightarrow> byte list) \<Rightarrow> nat \<Rightarrow> Query \<Rightarrow> int \<times> byte list" where
  "replyRCode pk rcode q =
     (let m = pk \<lparr>m_ID = q_ID q, m_Response = True, m_RCode = rcode,
                  m_Questions = [(q_Name q, q_Type q, q_Class q)],
                  m_Answers = [], m_Authorities = [], m_Additionals = []\<rparr>
      in (int (length m), m))"

section \<open>serveTCPConn as a transition system\<close>

text \<open>
  \<^verbatim>\<open>serveTCPConn\<close> runs a loop and starts one goroutine per accepted frame. The model
  is an interleaving of atomic steps: the control point of the loop (\<open>main_pc\<close>) and of
  each goroutine (\<open>task_pc\<close>), one step per blocking or shared operation (each \<^verbatim>\<open>Write\<close> on the connection is a
  step of its own, so the writes of different goroutines interleave). A step whose
  operation would block (a send on the full channel, a receive on the empty one,
  \<^verbatim>\<open>wg.Wait()\<close> with a positive counter) leaves the state as it is.
\<close>

datatype main_pc =
    MAcquire \<comment> \<open>\<^verbatim>\<open>inflightRequests <- struct{}{}\<close>\<close>
  | MRead \<comment> \<open>\<^verbatim>\<open>GetLarge\<close>, \<^verbatim>\<open>readTCP\<close>, the two tests, \<^verbatim>\<open>wg.Add(1)\<close> and \<^verbatim>\<open>go\<close>\<close>
  | MPut "go_error option" \<comment> \<open>\<^verbatim>\<open>bpool.Put(&buf)\<close> before a return\<close>
  | MRelease "go_error option" \<comment> \<open>\<^verbatim>\<open><-inflightRequests\<close> before a return\<close>
  | MWait "go_error option" \<comment> \<open>deferred \<^verbatim>\<open>wg.Wait()\<close>\<close>
  | MClose "go_error option" \<comment> \<open>deferred \<^verbatim>\<open>c.Close()\<close>\<close>
  | MReturned "go_error option" \<comment> \<open>the function has returned this error\<close>
  | MCrashed \<comment> \<open>a panic outside any \<^verbatim>\<open>recover\<close>\<close>

datatype task_pc =
    TStart \<comment> \<open>\<^verbatim>\<open>query.New\<close>, \<^verbatim>\<open>p.logErr\<close>, \<^verbatim>\<open>GetLarge\<close> for \<open>rbuf\<close>\<close>
  | TResolve \<comment> \<open>\<^verbatim>\<open>p.Resolve\<close> and the SERVFAIL test\<close>
  | TWrite \<comment> \<open>\<^verbatim>\<open>writeTCP\<close>: the \<^verbatim>\<open>Write\<close> of the length prefix\<close>
  | TWriteBody \<comment> \<open>\<^verbatim>\<open>writeTCP\<close>: the \<^verbatim>\<open>Write\<close> of the message\<close>
  | TPut \<comment> \<open>deferred: \<^verbatim>\<open>recover\<close>, the two \<^verbatim>\<open>bpool.Put\<close>\<close>
  | TRelease \<comment> \<open>deferred: \<^verbatim>\<open><-inflightRequests\<close>, \<^verbatim>\<open>p.logQuery\<close>\<close>
  | TDone \<comment> \<open>deferred: \<^verbatim>\<open>wg.Done()\<close>\<close>
  | TFinished

text \<open>The variables of one goroutine: those it captures and its own.\<close>

record task =
  t_pc :: task_pc
  t_buf :: buffer
  t_qsize :: int
  t_data :: "byte list" \<comment> \<open>\<^verbatim>\<open>buf[:qsize]\<close>\<close>
  t_q :: Query
  t_rbuf :: buffer
  t_rdata :: "byte list" \<comment> \<open>the contents of \<open>rbuf\<close>\<close>
  t_rsize :: int
  t_ri :: ResolveInfo
  t_err :: "go_error option"

definition new_task :: "buffer \<Rightarrow> int \<Rightarrow> byte list \<Rightarrow> task" where
  "new_task buf qsize d =
     \<lparr>t_pc = TStart, t_buf = buf, t_qsize = qsize, t_data = take (nat qsize) d,
      t_q = zero_Query, t_rbuf = make_bytes 0, t_rdata = [], t_rsize = 0,
      t_ri = zero_ResolveInfo, t_err = None\<rparr>"

text \<open>
  What happened, newest first. The number is that of the loop iteration (for the loop) or
  of the goroutine (the iteration that started it); \<open>WriteCall\<close> records the bytes
  given to \<^verbatim>\<open>Write\<close> and whether the connection was already closed.
\<close>

datatype event =
    Acquire nat
  | Release nat
  | ResolveCall nat
  | WriteCall nat "byte list" bool
  | WgDone nat
  | CloseConn

record state =
  conn_of :: conn
  inflight :: nat \<comment> \<open>\<^verbatim>\<open>len(inflightRequests)\<close>\<close>
  bpool :: TieredBufferPool
  wg :: int
  main :: main_pc
  main_buf :: buffer
  tasks :: "task list"
  errlog :: "go_error list" \<comment> \<open>the calls of \<^verbatim>\<open>p.logErr\<close>, newest first\<close>
  qlog :: "QueryInfo list" \<comment> \<open>the calls of \<^verbatim>\<open>p.logQuery\<close>, newest first\<close>
  trace :: "event list"

definition init :: "reader \<Rightarrow> state" where
  "init r =
     \<lparr>conn_of = \<lparr>rd = r, wrote = [], n_writes = 0, c_closed = False\<rparr>, inflight = 0,
      bpool = NewTieredBufferPool, wg = 0, main = MAcquire, main_buf = make_bytes 0,
      tasks = [], errlog = [], qlog = [], trace = []\<rparr>"

text \<open>The loop of \<^verbatim>\<open>serveTCPConn\<close> and its deferred function.\<close>

definition main_step :: "env \<Rightarrow> nat \<Rightarrow> state \<Rightarrow> state" where
  "main_step e pick s =
     (case main s of
        MAcquire \<Rightarrow>
          if inflight s < capacity e
          then s\<lparr>inflight := inflight s + 1, main := MRead,
                 trace := Acquire (length (tasks s)) # trace s\<rparr>
          else s
      | MRead \<Rightarrow>
          (let (buf, bp) = GetLarge pick (bpool s) in
           case readTCP (rd (conn_of s)) buf of
             Panics v \<Rightarrow> s\<lparr>bpool := bp, main_buf := buf, main := MCrashed\<rparr>
           | Returns ((qsize, err), d, r) \<Rightarrow>
               (let s1 = s\<lparr>bpool := bp, main_buf := buf, conn_of := (conn_of s)\<lparr>rd := r\<rparr>\<rparr> in
                case err of
                  Some er \<Rightarrow>
                    s1\<lparr>main := MPut (if er = EOF then None
                                       else Some (New (''TCP read: '' @ Error er)))\<rparr>
                | None \<Rightarrow>
                    if qsize \<le> 14
                    then s1\<lparr>main := MPut (Some (New (''query too small: '' @ show_int qsize)))\<rparr>
                    else s1\<lparr>wg := wg s + 1, tasks := tasks s @ [new_task buf qsize d],
                            main := MAcquire\<rparr>))
      | MPut ret \<Rightarrow> s\<lparr>bpool := Put (Some (main_buf s)) (bpool s), main := MRelease ret\<rparr>
      | MRelease ret \<Rightarrow>
          if 0 < inflight s
          then s\<lparr>inflight := inflight s - 1, main := MWait ret,
                 trace := Release (length (tasks s)) # trace s\<rparr>
          else s
      | MWait ret \<Rightarrow> if wg s = 0 then s\<lparr>main := MClose ret\<rparr> else s
      | MClose ret \<Rightarrow>
          s\<lparr>conn_of := (conn_of s)\<lparr>c_closed := True\<rparr>, main := MReturned ret,
            trace := CloseConn # trace s\<rparr>
      | MReturned ret \<Rightarrow> s
      | MCrashed \<Rightarrow> s)"

text \<open>
  The goroutine of one query. A panic of \<^verbatim>\<open>p.Resolve\<close> leaves \<open>rsize\<close> and \<open>ri\<close>
  unassigned and runs the deferred functions at once: \<^verbatim>\<open>recover\<close> turns the panic
  value and the stack into \<open>err\<close>.
\<close>

definition task_step :: "env \<Rightarrow> nat \<Rightarrow> nat \<Rightarrow> state \<Rightarrow> state" where
  "task_step e i pick s =
     (if length (tasks s) \<le> i then s
      else
        (let t = tasks s ! i in
         case t_pc t of
           TStart \<Rightarrow>
             (let (q, perr) = query_New e (t_data t);
                  (rb, bp) = GetLarge pick (bpool s)
              in s\<lparr>errlog := (case perr of None \<Rightarrow> errlog s | Some er \<Rightarrow> er # errlog s),
                    bpool := bp,
                    tasks := (tasks s)[i := t\<lparr>t_q := q, t_err := perr, t_rbuf := rb,
                                                 t_pc := TResolve\<rparr>]\<rparr>)
         | TResolve \<Rightarrow>
             (case Resolve e i (t_q t) of
                Panics v \<Rightarrow>
                  s\<lparr>tasks := (tasks s)[i := t\<lparr>t_err := Some (New (''panic: '' @ v @ '': '' @ Stack e)),
                                                 t_pc := TPut\<rparr>],
                    trace := ResolveCall i # trace s\<rparr>
              | Returns (rsize, ri, err, rdata) \<Rightarrow>
                  (let (rsize', rdata') =
                         (if err \<noteq> None \<or> rsize \<le> 0 \<or> rsize > maxTCPSize
                          then replyRCode (pack e) RCodeServerFailure (t_q t)
                          else (rsize, rdata))
                   in s\<lparr>tasks := (tasks s)[i := t\<lparr>t_rsize := rsize', t_ri := ri, t_err := err,
                                                      t_rdata := rdata', t_pc := TWrite\<rparr>],
                         trace := ResolveCall i # trace s\<rparr>))
         | TWrite \<Rightarrow>
             (let buf = take (nat (t_rsize t)) (t_rdata t);
                  hdr = put16 (of_nat (length buf));
                  (c, werr) = Conn_Write (Write_result e) (conn_of s) hdr
              in case werr of
                   Some er \<Rightarrow>
                     s\<lparr>conn_of := c,
                       tasks := (tasks s)[i := t\<lparr>t_err := (if t_err t = None then werr else t_err t),
                                                    t_pc := TPut\<rparr>],
                       trace := WriteCall i hdr (c_closed (conn_of s)) # trace s\<rparr>
                 | None \<Rightarrow>
                     s\<lparr>conn_of := c, tasks := (tasks s)[i := t\<lparr>t_pc := TWriteBody\<rparr>],
                       trace := WriteCall i hdr (c_closed (conn_of s)) # trace s\<rparr>)
         | TWriteBody \<Rightarrow>
             (let buf = take (nat (t_rsize t)) (t_rdata t);
                  (c, werr) = Conn_Write (Write_result e) (conn_of s) buf
              in s\<lparr>conn_of := c,
                    tasks := (tasks s)[i := t\<lparr>t_err := (if t_err t = None then werr else t_err t),
                                                 t_pc := TPut\<rparr>],
                    trace := WriteCall i buf (c_closed (conn_of s)) # trace s\<rparr>)
         | TPut \<Rightarrow>
             s\<lparr>bpool := Put (Some (t_rbuf t)) (Put (Some (t_buf t)) (bpool s)),
               tasks := (tasks s)[i := t\<lparr>t_pc := TRelease\<rparr>]\<rparr>
         | TRelease \<Rightarrow>
             if 0 < inflight s
             then s\<lparr>inflight := inflight s - 1,
                    qlog := \<lparr>qi_PeerIP = q_PeerIP (t_q t), qi_Protocol = ''TCP'',
                              qi_Type = q_Type (t_q t), qi_Name = q_Name (t_q t),
                              qi_QuerySize = t_qsize t, qi_ResponseSize = t_rsize t,
                              qi_Profile = ri_Profile (t_ri t), qi_FromCache = ri_FromCache (t_ri t),
                              qi_UpstreamTransport = ri_Transport (t_ri t),
                              qi_Error = t_err t\<rparr> # qlog s,
                    tasks := (tasks s)[i := t\<lparr>t_pc := TDone\<rparr>],
                    trace := Release i # trace s\<rparr>
             else s
         | TDone \<Rightarrow>
             s\<lparr>wg := wg s - 1, tasks := (tasks s)[i := t\<lparr>t_pc := TFinished\<rparr>],
               trace := WgDone i # trace s\<rparr>
         | TFinished \<Rightarrow> s))"

text \<open>
  One step of the thread chosen by the scheduler: thread 0 is the loop, thread \<open>i + 1\<close>
  the goroutine of iteration \<open>i\<close>; \<open>pick\<close> is the choice \<^verbatim>\<open>sync.Pool\<close> makes if the
  step calls \<^verbatim>\<open>GetLarge\<close>. \<open>exec\<close> runs a schedule.
\<close>

fun step :: "env \<Rightarrow> nat \<times> nat \<Rightarrow> state \<Rightarrow> state" where
  "step e (0, pick) s = main_step e pick s"
| "step e (Suc i, pick) s = task_step e i pick s"

fun exec :: "env \<Rightarrow> (nat \<times> nat) list \<Rightarrow> state \<Rightarrow> state" where
  "exec e [] s = s"
| "exec e (x # xs) s = exec e xs (step e x s)"

text \<open>The function has returned and every goroutine it started has finished.\<close>

definition quiescent :: "state \<Rightarrow> bool" where
  "quiescent s =
     ((case main s of MReturned ret \<Rightarrow> True | _ \<Rightarrow> False)
      \<and> list_all (\<lambda>t. t_pc t = TFinished) (tasks s))"

section \<open>The DNS53 resolver: the loop that reads the response\<close>

text \<open>
  Modelled from the spec: \<^verbatim>\<open>resolver/dns53.go\<close> is not among the sources (only its
  tests are). The spec has the resolver write the query to the upstream server, "then loop
  reading responses bounded by \<open>maxRetries\<close> (5): each datagram is checked for (a) minimum
  viable header length, (b) transaction-ID equality with the outgoing query. A too-short
  or ID-mismatched datagram is discarded and the loop continues, but only up to the retry
  ceiling; exceeding it fails with a distinct, stable error"; a read that fails (deadline,
  cancellation) aborts at once. The upstream is the sequence of results of the successive
  reads; the minimum length, which the spec does not give, is a parameter. The result
  comes with the number of reads made.
\<close>

definition maxRetries :: nat where
  "maxRetries = 5"

datatype udp_read = Datagram "byte list" | ReadFails go_error

definition dgram_id :: "byte list \<Rightarrow> 16 word option" where
  "dgram_id d = (if length d < 2 then None else Some (be16 d))"

function read_loop ::
  "16 word \<Rightarrow> nat \<Rightarrow> (nat \<Rightarrow> udp_read) \<Rightarrow> nat \<Rightarrow> nat \<Rightarrow> (go_error + byte list) \<times> nat" where
  "read_loop qid min_len upstream retries reads =
     (case upstream reads of
        ReadFails er \<Rightarrow> (Inl er, Suc reads)
      | Datagram d \<Rightarrow>
          if length d < min_len
          then (if maxRetries < Suc retries
                then (Inl (New ''max retries exceeded waiting for valid response''), Suc reads)
                else read_loop qid min_len upstream (Suc retries) (Suc reads))
          else if dgram_id d \<noteq> Some qid
          then (if maxRetries < Suc retries
                then (Inl (New ''max retries exceeded: DNS ID mismatch''), Suc reads)
                else read_loop qid min_len upstream (Suc retries) (Suc reads))
          else (Inr d, Suc reads))"
  by pat_completeness auto
termination
  by (relation "measure (\<lambda>(qid, min_len, upstream, retries, reads). Suc maxRetries - retries)") auto

definition DNS53_resolve :: "16 word \<Rightarrow> nat \<Rightarrow> (nat \<Rightarrow> udp_read) \<Rightarrow> (go_error + byte list) \<times> nat" where
  "DNS53_resolve qid min_len upstream = read_loop qid min_len upstream 0 0"

text \<open>
  Two upstreams: one that only sends one-byte datagrams, one that only sends a header
  of 12 bytes with a transaction ID other than 12345.
\<close>

definition short_upstream :: "nat \<Rightarrow> udp_read" where
  "short_upstream k = Datagram [0]"

definition wrong_id_upstream :: "nat \<Rightarrow> udp_read" where
  "wrong_id_upstream k = Datagram [48, 58, 129, 128, 0, 1, 0, 0, 0, 0, 0, 0]"

section \<open>Invariants of the transition system\<close>

text \<open>
  Who holds an admission token, by control point: the loop from its send on the channel to
  its receive, a goroutine from its start to its deferred receive. \<open>sync_inv\<close> ties
  the channel, the wait group and the connection to the control points.
\<close>

fun main_holds :: "main_pc \<Rightarrow> bool" where
  "main_holds MRead = True"
| "main_holds (MPut r) = True"
| "main_holds (MRelease r) = True"
| "main_holds MCrashed = True"
| "main_holds _ = False"

fun task_holds :: "task_pc \<Rightarrow> bool" where
  "task_holds TDone = False"
| "task_holds TFinished = False"
| "task_holds _ = True"

fun main_past_wait :: "main_pc \<Rightarrow> bool" where
  "main_past_wait (MClose r) = True"
| "main_past_wait (MReturned r) = True"
| "main_past_wait _ = False"

fun main_returned :: "main_pc \<Rightarrow> bool" where
  "main_returned (MReturned r) = True"
| "main_returned _ = False"

definition sync_inv :: "state \<Rightarrow> bool" where
  "sync_inv s =
     (inflight s = (if main_holds (main s) then 1 else 0)
                   + length (filter (\<lambda>t. task_holds (t_pc t)) (tasks s))
      \<and> wg s = int (length (filter (\<lambda>t. t_pc t \<noteq> TFinished) (tasks s)))
      \<and> (main_past_wait (main s) \<longrightarrow> list_all (\<lambda>t. t_pc t = TFinished) (tasks s))
      \<and> c_closed (conn_of s) = main_returned (main s)
      \<and> tiers_ok (bpool s) \<and> main s \<noteq> MCrashed)"

section \<open>What the claims about tokens and closing speak of\<close>

text \<open>
  The discipline of one admission token, as an automaton that reads the events of query
  \<open>k\<close> oldest first: the token is acquired once, resolution begins only while it is
  held, and it is released once, after which nothing more happens to it. \<open>None\<close> is
  a broken discipline (a second acquire, a resolution without the token, a release of a
  token not held).
\<close>

datatype phase = Idle | Held | Resolving | Released

fun token_event :: "nat \<Rightarrow> event \<Rightarrow> phase \<Rightarrow> phase option" where
  "token_event k (Acquire j) ph =
     (if j = k then (if ph = Idle then Some Held else None) else Some ph)"
| "token_event k (ResolveCall j) ph =
     (if j = k then (if ph = Held then Some Resolving else None) else Some ph)"
| "token_event k (Release j) ph =
     (if j = k then (if ph = Held \<or> ph = Resolving then Some Released else None) else Some ph)"
| "token_event k ev ph = Some ph"

fun token_phase :: "nat \<Rightarrow> event list \<Rightarrow> phase option" where
  "token_phase k [] = Some Idle"
| "token_phase k (ev # evs) =
     (case token_phase k evs of None \<Rightarrow> None | Some ph \<Rightarrow> token_event k ev ph)"

text \<open>The tokens held according to the events: acquires minus releases.\<close>

fun held_delta :: "event \<Rightarrow> int" where
  "held_delta (Acquire j) = 1"
| "held_delta (Release j) = - 1"
| "held_delta ev = 0"

definition held_tokens :: "event list \<Rightarrow> int" where
  "held_tokens evs = sum_list (map held_delta evs)"

text \<open>
  The phase each control point stands for; \<open>expected\<close> reads the phase of query \<open>k\<close>
  off the state (the goroutine of iteration \<open>k\<close>, or the loop while it is in iteration
  \<open>k\<close>), and \<open>trace_inv\<close> says the events agree with it.
\<close>

fun task_phase :: "task_pc \<Rightarrow> phase" where
  "task_phase TStart = Held"
| "task_phase TResolve = Held"
| "task_phase TDone = Released"
| "task_phase TFinished = Released"
| "task_phase pc = Resolving"

fun main_phase :: "main_pc \<Rightarrow> phase" where
  "main_phase MAcquire = Idle"
| "main_phase (MWait r) = Released"
| "main_phase (MClose r) = Released"
| "main_phase (MReturned r) = Released"
| "main_phase pc = Held"

definition expected :: "state \<Rightarrow> nat \<Rightarrow> phase" where
  "expected s k =
     (if k < length (tasks s) then task_phase (t_pc (tasks s ! k))
      else if k = length (tasks s) then main_phase (main s) else Idle)"

definition trace_inv :: "nat \<Rightarrow> state \<Rightarrow> bool" where
  "trace_inv k s =
     (token_phase k (trace s) = Some (expected s k) \<and> int (inflight s) = held_tokens (trace s))"

text \<open>
  Closing: a write is \<open>open_write\<close> when the connection was not closed at that moment;
  \<open>close_last\<close> says that no event follows \<open>CloseConn\<close> (the trace is newest first).
\<close>

fun open_write :: "event \<Rightarrow> bool" where
  "open_write (WriteCall i bs c) = (\<not> c)"
| "open_write ev = True"

fun close_last :: "event list \<Rightarrow> bool" where
  "close_last [] = True"
| "close_last (ev # evs) = (CloseConn \<notin> set evs)"

definition close_inv :: "state \<Rightarrow> bool" where
  "close_inv s =
     (list_all open_write (trace s)
      \<and> (\<not> c_closed (conn_of s) \<longrightarrow> CloseConn \<notin> set (trace s))
      \<and> close_last (trace s)
      \<and> (\<forall>i < length (tasks s). t_pc (tasks s ! i) = TFinished \<longrightarrow> WgDone i \<in> set (trace s)))"

text \<open>The value \<^verbatim>\<open>serveTCPConn\<close> is about to return, once its loop is left.\<close>

fun returning :: "main_pc \<Rightarrow> go_error option option" where
  "returning (MPut ret) = Some ret"
| "returning (MRelease ret) = Some ret"
| "returning (MWait ret) = Some ret"
| "returning (MClose ret) = Some ret"
| "returning (MReturned ret) = Some ret"
| "returning pc = None"

text \<open>
  Progress. \<open>task_rank\<close> numbers the control points of a goroutine in the order it
  passes them; \<open>steps_of tid sched\<close> counts the steps a schedule gives to a thread.
  \<open>drain n\<close> gives seven steps to each of the first \<open>n\<close> goroutines, and
  \<open>exit_sched\<close> is the schedule "the loop reads; the goroutines run to their end; the
  loop puts its buffer back, releases, waits and closes".
\<close>

fun task_rank :: "task_pc \<Rightarrow> nat" where
  "task_rank TStart = 0"
| "task_rank TResolve = 1"
| "task_rank TWrite = 2"
| "task_rank TWriteBody = 3"
| "task_rank TPut = 4"
| "task_rank TRelease = 5"
| "task_rank TDone = 6"
| "task_rank TFinished = 7"

definition steps_of :: "nat \<Rightarrow> (nat \<times> nat) list \<Rightarrow> nat" where
  "steps_of tid sched = length (filter (\<lambda>x. fst x = tid) sched)"

definition drain :: "nat \<Rightarrow> (nat \<times> nat) list" where
  "drain n = concat (map (\<lambda>i. replicate 7 (Suc i, 0)) [0..<n])"

definition exit_sched :: "nat \<Rightarrow> nat \<Rightarrow> (nat \<times> nat) list" where
  "exit_sched pick n = (0, pick) # drain n @ replicate 4 (0, 0)"

section \<open>A concrete run\<close>

text \<open>
  A toy parser and codec. The parser rejects messages shorter than 17 bytes; otherwise
  the ID is the first two bytes, the name what lies between the 12 bytes of the header
  and the last four bytes, which are the type and the class. The codec writes the ID, a
  byte for the response flag, a byte for the code, then each question.
\<close>

definition demo_parse :: "byte list \<Rightarrow> Query \<times> go_error option" where
  "demo_parse d =
     (if length d < 17
      then (zero_Query\<lparr>q_ID := be16 d, q_Payload := d\<rparr>, Some (New ''short message''))
      else (\<lparr>q_ID = be16 d, q_Name = take (length d - 16) (drop 12 d),
             q_Type = unat (be16 (drop (length d - 4) d)),
             q_Class = unat (be16 (drop (length d - 2) d)),
             q_PeerIP = ''192.0.2.7'', q_Payload = d\<rparr>, None))"

definition demo_pack :: "dns_message \<Rightarrow> byte list" where
  "demo_pack m =
     put16 (m_ID m) @ [if m_Response m then 128 else 0, of_nat (m_RCode m)]
     @ concat (map (\<lambda>(n, ty, cl). n @ put16 (of_nat ty) @ put16 (of_nat cl)) (m_Questions m))"

text \<open>
  A resolver that answers the first query, fails on the second and panics on the third; a
  network that sends every byte; a channel of capacity 2. The connection carries two
  frames of 19 bytes (ID 9, name \<open>[1, 97, 0]\<close>, type 1, class 1) and one of 15 bytes,
  which the parser rejects; then the peer closes. The schedule lets the loop run until the
  channel is full, then each goroutine to its end.
\<close>

definition demo_env :: env where
  "demo_env =
     \<lparr>query_New = demo_parse,
      Resolve = (\<lambda>i q. if i = 0 then Returns (2, zero_ResolveInfo, None, [170, 187])
                        else if i = 1 then Returns (0, zero_ResolveInfo, Some (New ''upstream timeout''), [])
                        else Panics ''boom''),
      pack = demo_pack,
      Stack = ''goroutine 7 [running]'',
      capacity = 2,
      Write_result = (\<lambda>k. None)\<rparr>"

definition payload19 :: "byte list" where
  "payload19 = [0, 9, 1, 0, 0, 1, 0, 0, 0, 0, 0, 0, 1, 97, 0, 0, 1, 0, 1]"

definition frame19 :: "byte list" where
  "frame19 = [0, 19] @ payload19"

definition frame15 :: "byte list" where
  "frame15 = [0, 15, 0, 9, 1, 0, 0, 1, 0, 0, 0, 0, 0, 0, 0, 0, 1]"

definition demo_reader :: reader where
  "demo_reader = \<lparr>pending = frame19 @ frame19 @ frame15, rd_err = EOF\<rparr>"

definition demo_sched :: "(nat \<times> nat) list" where
  "demo_sched =
     [(0, 0), (0, 0), (0, 0), (0, 0), (0, 0),
      (1, 0), (1, 0), (1, 0), (1, 0), (1, 0), (1, 0), (1, 0),
      (0, 0), (0, 0),
      (2, 0), (2, 0), (2, 0), (2, 0), (2, 0), (2, 0), (2, 0),
      (0, 0), (0, 0), (0, 0), (0, 0), (0, 0),
      (3, 0), (3, 0), (3, 0), (3, 0), (3, 0),
      (0, 0), (0, 0)]"

text \<open>Two connections that carry a single frame, of 14 and of 15 bytes.\<close>

definition payload14 :: "byte list" where
  "payload14 = [0, 9, 1, 0, 0, 1, 0, 0, 0, 0, 0, 0, 0, 0]"

definition payload15 :: "byte list" where
  "payload15 = [0, 9, 1, 0, 0, 1, 0, 0, 0, 0, 0, 0, 0, 0, 1]"

definition reader14 :: reader where
  "reader14 = \<lparr>pending = [0, 14] @ payload14, rd_err = EOF\<rparr>"

definition reader15 :: reader where
  "reader15 = \<lparr>pending = [0, 15] @ payload15, rd_err = EOF\<rparr>"

text \<open>
  Prefixes of the schedule: up to the moment the second goroutine is about to call the
  resolver, and up to the moment the third is. \<open>panic_env\<close> has a resolver that always
  panics; \<open>panic_sched\<close> serves one frame to the end.
\<close>

definition sched_to_resolve1 :: "(nat \<times> nat) list" where
  "sched_to_resolve1 =
     [(0, 0), (0, 0), (0, 0), (0, 0), (0, 0),
      (1, 0), (1, 0), (1, 0), (1, 0), (1, 0), (1, 0), (1, 0),
      (0, 0), (0, 0),
      (2, 0)]"

definition sched_to_resolve2 :: "(nat \<times> nat) list" where
  "sched_to_resolve2 =
     [(0, 0), (0, 0), (0, 0), (0, 0), (0, 0),
      (1, 0), (1, 0), (1, 0), (1, 0), (1, 0), (1, 0), (1, 0),
      (0, 0), (0, 0),
      (2, 0), (2, 0), (2, 0), (2, 0), (2, 0), (2, 0), (2, 0),
      (0, 0), (0, 0), (0, 0), (0, 0), (0, 0),
      (3, 0)]"

definition panic_env :: env where
  "panic_env = demo_env\<lparr>Resolve := (\<lambda>i q. Panics ''boom'')\<rparr>"

definition panic_sched :: "(nat \<times> nat) list" where
  "panic_sched =
     [(0, 0), (0, 0),
      (1, 0), (1, 0), (1, 0), (1, 0), (1, 0),
      (0, 0), (0, 0), (0, 0), (0, 0), (0, 0), (0, 0)]"

text \<open>
  \<open>idle_sched\<close> serves the first frame to the end and lets the loop take the token of the
  next frame. \<open>mixed_sched\<close> gives the second goroutine its seven steps among steps of
  the others. \<open>reader_reset\<close> is a connection that breaks in the middle of a frame.
\<close>

definition idle_sched :: "(nat \<times> nat) list" where
  "idle_sched =
     [(0, 0), (0, 0),
      (1, 0), (1, 0), (1, 0), (1, 0), (1, 0), (1, 0), (1, 0),
      (0, 0)]"

definition mixed_sched :: "(nat \<times> nat) list" where
  "mixed_sched = [(2, 0), (0, 0), (2, 0), (3, 0), (2, 0), (2, 0), (3, 0), (2, 0), (2, 0), (2, 0)]"

definition reader_reset :: reader where
  "reader_reset = \<lparr>pending = [0, 19, 0, 9, 1], rd_err = New ''connection reset by peer''\<rparr>"

text \<open>
  \<open>sched_two_started\<close> starts two goroutines: the first is at its \<^verbatim>\<open>writeTCP\<close>, the
  second about to call the resolver.
\<close>

definition sched_two_started :: "(nat \<times> nat) list" where
  "sched_two_started = [(0, 0), (0, 0), (0, 0), (0, 0), (1, 0), (1, 0), (2, 0)]"

text \<open>\<open>fail_env\<close> has a resolver that always fails.\<close>

definition fail_env :: env where
  "fail_env =
     demo_env\<lparr>Resolve := (\<lambda>i q. Returns (0, zero_ResolveInfo, Some (New ''upstream timeout''), []))\<rparr>"

section \<open>The buffer pool: its invariant and the claims about it\<close>

lemma Pool_Get_cap: "pool_ok pl \<Longrightarrow> buf_cap (fst (Pool_Get pick pl)) = new_size pl"
  by (simp add: Pool_Get_def pool_ok_def make_bytes_def list_all_length)

lemma Pool_Get_ok: "pool_ok pl \<Longrightarrow> pool_ok (snd (Pool_Get pick pl))"
proof -
  assume ok: "pool_ok pl"
  have "set (take pick (items pl) @ drop (Suc pick) (items pl)) \<subseteq> set (items pl)"
    using set_take_subset set_drop_subset by fastforce
  with ok show ?thesis
    by (auto simp: Pool_Get_def pool_ok_def list_all_iff)
qed

lemma Pool_Get_new_size: "new_size (snd (Pool_Get pick pl)) = new_size pl"
  by (simp add: Pool_Get_def)

lemma Pool_Put_ok: "pool_ok pl \<Longrightarrow> buf_cap b = new_size pl \<Longrightarrow> pool_ok (Pool_Put b pl)"
  by (simp add: Pool_Put_def pool_ok_def)

lemma tiers_ok_New: "tiers_ok NewTieredBufferPool"
  by (simp add: tiers_ok_def NewTieredBufferPool_def pool_ok_def)

lemma tiers_ok_Get: "tiers_ok p \<Longrightarrow> tiers_ok (snd (Get pick sz p))"
  using Pool_Get_ok [of "small p" pick] Pool_Get_ok [of "medium p" pick]
    Pool_Get_ok [of "large p" pick]
  by (simp add: Get_def tiers_ok_def Pool_Get_new_size split_beta)

lemma tiers_ok_GetLarge: "tiers_ok p \<Longrightarrow> tiers_ok (snd (GetLarge pick p))"
  using Pool_Get_ok [of "large p" pick]
  by (simp add: GetLarge_def tiers_ok_def Pool_Get_new_size split_beta)

lemma tiers_ok_Put: "tiers_ok p \<Longrightarrow> tiers_ok (Put buf p)"
  by (cases buf) (simp_all add: Put_def tiers_ok_def Pool_Put_ok, simp add: Pool_Put_def)

lemma tiers_ok_apply: "tiers_ok p \<Longrightarrow> tiers_ok (apply_pool_op p opn)"
  by (cases opn) (simp_all add: tiers_ok_Get tiers_ok_GetLarge tiers_ok_Put)

lemma tiers_ok_foldl: "tiers_ok p \<Longrightarrow> tiers_ok (foldl apply_pool_op p ops)"
  by (induction ops arbitrary: p) (simp_all add: tiers_ok_apply)

lemma tiers_ok_run: "tiers_ok (run_pool_ops ops)"
  by (simp add: run_pool_ops_def tiers_ok_foldl tiers_ok_New)

lemma Get_cap: "tiers_ok p \<Longrightarrow> buf_cap (fst (Get pick sz p)) = tier_cap sz"
  by (simp add: Get_def tier_cap_def tiers_ok_def split_beta Pool_Get_cap)

lemma GetLarge_cap: "tiers_ok p \<Longrightarrow> buf_cap (fst (GetLarge pick p)) = 65536"
  by (simp add: GetLarge_def tiers_ok_def split_beta Pool_Get_cap)

text \<open>
  C4. Whatever was done to the pool before, \<^verbatim>\<open>Get(n)\<close> returns a buffer of capacity
  exactly 512 when \<open>n \<le> 512\<close>, exactly 4096 when \<open>512 < n \<le> 4096\<close>, and exactly 65536
  otherwise (also for \<open>n\<close> above 65536, and for negative \<open>n\<close>, which fall into the
  first case); \<^verbatim>\<open>GetLarge()\<close> returns a buffer of capacity exactly 65536. Both are
  total: there is no failing branch.
\<close>

theorem Get_capacity_by_tier:
  "buf_cap (fst (Get pick n (run_pool_ops ops))) =
     (if n \<le> 512 then 512 else if n \<le> 4096 then 4096 else 65536)
   \<and> buf_cap (fst (GetLarge pick (run_pool_ops ops))) = 65536"
  using Get_cap [OF tiers_ok_run, of pick n ops] GetLarge_cap [OF tiers_ok_run, of pick ops]
  by (simp add: tier_cap_def)

text \<open>
  C5. \<^verbatim>\<open>Put\<close> of a non-nil buffer adds it to the small, medium or large free list
  exactly when its capacity is exactly 512, 4096 or 65536, and leaves all three lists as
  they were for any other capacity (\<^verbatim>\<open>Put\<close> is total: nothing is raised). So a buffer
  obtained by \<^verbatim>\<open>Get(n)\<close> and put back lands in the free list it came from and in no
  other, and whatever a free list hands out has that tier's capacity.
\<close>

theorem Put_matches_exact_capacity:
  "items (small (Put (Some b) p)) = (if buf_cap b = 512 then b # items (small p) else items (small p))
   \<and> items (medium (Put (Some b) p)) =
       (if buf_cap b = 4096 then b # items (medium p) else items (medium p))
   \<and> items (large (Put (Some b) p)) =
       (if buf_cap b = 65536 then b # items (large p) else items (large p))
   \<and> Put (Some (fst (Get pick n (run_pool_ops ops)))) (snd (Get pick n (run_pool_ops ops))) =
       (let g = fst (Get pick n (run_pool_ops ops)); q = snd (Get pick n (run_pool_ops ops))
        in if n \<le> 512 then q\<lparr>small := Pool_Put g (small q)\<rparr>
           else if n \<le> 4096 then q\<lparr>medium := Pool_Put g (medium q)\<rparr>
           else q\<lparr>large := Pool_Put g (large q)\<rparr>)
   \<and> buf_cap (fst (Pool_Get pick (small (run_pool_ops ops)))) = 512
   \<and> buf_cap (fst (Pool_Get pick (medium (run_pool_ops ops)))) = 4096
   \<and> buf_cap (fst (Pool_Get pick (large (run_pool_ops ops)))) = 65536"
proof -
  have ok: "tiers_ok (run_pool_ops ops)" by (rule tiers_ok_run)
  have tiers: "items (small (Put (Some b) p)) =
        (if buf_cap b = 512 then b # items (small p) else items (small p))"
      "items (medium (Put (Some b) p)) =
        (if buf_cap b = 4096 then b # items (medium p) else items (medium p))"
      "items (large (Put (Some b) p)) =
        (if buf_cap b = 65536 then b # items (large p) else items (large p))"
    by (simp_all add: Put_def Pool_Put_def)
  have putback: "Put (Some (fst (Get pick n (run_pool_ops ops)))) (snd (Get pick n (run_pool_ops ops))) =
       (let g = fst (Get pick n (run_pool_ops ops)); q = snd (Get pick n (run_pool_ops ops))
        in if n \<le> 512 then q\<lparr>small := Pool_Put g (small q)\<rparr>
           else if n \<le> 4096 then q\<lparr>medium := Pool_Put g (medium q)\<rparr>
           else q\<lparr>large := Pool_Put g (large q)\<rparr>)"
    using Get_cap [OF ok, of pick n] by (simp add: Put_def tier_cap_def Let_def)
  have caps: "buf_cap (fst (Pool_Get pick (small (run_pool_ops ops)))) = 512"
      "buf_cap (fst (Pool_Get pick (medium (run_pool_ops ops)))) = 4096"
      "buf_cap (fst (Pool_Get pick (large (run_pool_ops ops)))) = 65536"
    using ok by (simp_all add: tiers_ok_def Pool_Get_cap)
  from tiers putback caps show ?thesis by blast
qed

section \<open>Reading a frame\<close>

lemma uint16_le_max: "\<not> (w :: 16 word) > word_of_int maxTCPSize"
proof -
  have "unat w < 2 ^ 16" using unsigned_less [of w] by simp
  then have "unat w \<le> unat (65535 :: 16 word)" by simp
  then show ?thesis by (simp add: word_le_nat_alt not_less maxTCPSize_def)
qed

lemma ReadFull_err:
  "ReadFull r n = ((d, m, Some er), r') \<Longrightarrow> er = rd_err r \<or> er = ErrUnexpectedEOF"
  by (auto simp: ReadFull_def split: if_splits)

lemma ReadFull_reader: "rd_err (snd (ReadFull r n)) = rd_err r"
  by (simp add: ReadFull_def)

lemma readTCP_err_origin:
  "readTCP r buf = Returns ((n, Some er), d, r') \<Longrightarrow> er = rd_err r \<or> er = ErrUnexpectedEOF"
proof -
  assume a: "readTCP r buf = Returns ((n, Some er), d, r')"
  obtain hdr k e1 r1 where h: "ReadFull r 2 = ((hdr, k, e1), r1)"
    by (cases "ReadFull r 2") auto
  have r1: "rd_err r1 = rd_err r" using ReadFull_reader [of r 2] h by simp
  show ?thesis
  proof (cases e1)
    case (Some x)
    with a h have "er = x" by (simp add: readTCP_def)
    with ReadFull_err [of r 2 hdr k x r1] h Some show ?thesis by simp
  next
    case None
    obtain d2 m2 e2 r2 where h2: "ReadFull r1 (unat (be16 hdr)) = ((d2, m2, e2), r2)"
      by (cases "ReadFull r1 (unat (be16 hdr))") auto
    from a h None h2 have "e2 = Some er"
      by (simp add: readTCP_def Let_def uint16_le_max split: if_splits)
    with ReadFull_err [of r1 "unat (be16 hdr)" d2 m2 er r2] h2 r1 show ?thesis by simp
  qed
qed

lemma be16_put16: "be16 (put16 w @ xs) = w"
  apply (simp add: put16_def)
  apply (rule bit_eqI)
  apply (auto simp add: bit_simps)
  done

lemma unat_len16: "n \<le> 65535 \<Longrightarrow> unat (of_nat n :: 16 word) = n"
  by (simp add: unat_of_nat take_bit_nat_eq_self)

lemma readTCP_frame:
  assumes "pending r = put16 (of_nat (length p)) @ p @ rest" and "length p \<le> 65535"
    and "buf_cap buf = 65536"
  shows "readTCP r buf = Returns ((int (length p), None), p, r\<lparr>pending := rest\<rparr>)"
proof -
  have h: "ReadFull r 2 = ((put16 (of_nat (length p)), 2, None), r\<lparr>pending := p @ rest\<rparr>)"
    using assms(1) by (simp add: ReadFull_def put16_def)
  have b: "be16 (put16 (of_nat (length p))) = of_nat (length p)"
    using be16_put16 [of "of_nat (length p)" "[]"] by simp
  have u: "unat (of_nat (length p) :: 16 word) = length p"
    using assms(2) by (rule unat_len16)
  have h2: "ReadFull (r\<lparr>pending := p @ rest\<rparr>) (length p) = ((p, int (length p), None), r\<lparr>pending := rest\<rparr>)"
    by (simp add: ReadFull_def)
  show ?thesis
    using assms(2,3) by (simp add: readTCP_def h b u h2 uint16_le_max)
qed

section \<open>Channel, wait group and connection: the invariant holds\<close>

lemma filter_update_count:
  "i < length xs \<Longrightarrow>
   length (filter P (xs[i := y])) + (if P (xs ! i) then 1 else 0)
     = length (filter P xs) + (if P y then 1 else 0)"
proof (induction xs arbitrary: i)
  case Nil
  then show ?case by simp
next
  case (Cons x xs)
  then show ?case by (cases i) auto
qed

lemma filter_none_all: "length (filter (\<lambda>t. \<not> P t) xs) = 0 \<Longrightarrow> list_all P xs"
  by (induction xs) (auto split: if_splits)

lemma readTCP_no_panic: "buf_cap buf = 65536 \<Longrightarrow> readTCP r buf \<noteq> Panics v"
proof -
  assume c: "buf_cap buf = 65536"
  have "unat (w :: 16 word) < 65536" for w
    using unsigned_less [of w] by simp
  then have "\<not> buf_cap buf < unat (w :: 16 word)" for w
    using c by (simp add: not_less less_imp_le)
  then show ?thesis
    by (auto simp: readTCP_def Let_def split: prod.splits option.splits)
qed

lemma sync_inv_init: "sync_inv (init r)"
  by (simp add: sync_inv_def init_def tiers_ok_New)

lemma sync_inv_main: "sync_inv s \<Longrightarrow> sync_inv (main_step e pick s)"
proof -
  assume a: "sync_inv s"
  show ?thesis
  proof (cases "main s")
    case MAcquire
    with a show ?thesis by (simp add: sync_inv_def main_step_def)
  next
    case MRead
    obtain buf bp where g: "GetLarge pick (bpool s) = (buf, bp)" by (cases "GetLarge pick (bpool s)")
    from a have ok: "tiers_ok (bpool s)" by (simp add: sync_inv_def)
    have cap: "buf_cap buf = 65536" using GetLarge_cap [OF ok, of pick] g by simp
    have bp: "tiers_ok bp" using tiers_ok_GetLarge [OF ok, of pick] g by simp
    show ?thesis
    proof (cases "readTCP (rd (conn_of s)) buf")
      case (Panics v)
      with readTCP_no_panic [OF cap] show ?thesis by simp
    next
      case (Returns x)
      obtain qsize err d r where x: "x = ((qsize, err), d, r)" by (cases x) auto
      with a MRead g Returns bp show ?thesis
        by (cases err) (simp_all add: sync_inv_def main_step_def Let_def new_task_def)
    qed
  next
    case (MPut x3)
    with a show ?thesis by (simp add: sync_inv_def main_step_def tiers_ok_Put)
  next
    case (MRelease x4)
    with a show ?thesis by (simp add: sync_inv_def main_step_def)
  next
    case (MWait x5)
    with a show ?thesis 
      using filter_none_all [of "\<lambda>t. t_pc t = TFinished" "tasks s"]
      by (simp add: sync_inv_def main_step_def)
  next
    case (MClose x6)
    with a show ?thesis by (simp add: sync_inv_def main_step_def)
  next
    case (MReturned x7)
    with a show ?thesis by (simp add: sync_inv_def main_step_def)
  next
    case MCrashed
    with a show ?thesis by (simp add: sync_inv_def main_step_def)
  qed
qed


lemma filter_update_same:
  "i < length xs \<Longrightarrow> P (xs ! i) = P y \<Longrightarrow> length (filter P (xs[i := y])) = length (filter P xs)"
  using filter_update_count [of i xs P y] by (simp split: if_splits)

lemma filter_update_drop:
  "i < length xs \<Longrightarrow> P (xs ! i) \<Longrightarrow> \<not> P y \<Longrightarrow>
   Suc (length (filter P (xs[i := y]))) = length (filter P xs)"
  using filter_update_count [of i xs P y] by simp

lemma Conn_Write_closed: "c_closed (fst (Conn_Write w c b)) = c_closed c"
  by (simp add: Conn_Write_def split: option.splits)

lemma sync_inv_task: "sync_inv s \<Longrightarrow> sync_inv (task_step e i pick s)"
proof -
  assume a: "sync_inv s"
  show ?thesis
  proof (cases "length (tasks s) \<le> i")
    case True
    with a show ?thesis by (simp add: task_step_def)
  next
    case False
    then have i: "i < length (tasks s)" by simp
    define t where "t = tasks s ! i"
    note cnt = filter_update_same [OF i, of "\<lambda>t. task_holds (t_pc t)"]
      filter_update_same [OF i, of "\<lambda>t. t_pc t \<noteq> TFinished"]
    have live: "t_pc t \<noteq> TFinished \<Longrightarrow> \<not> main_past_wait (main s)"
      using a i by (auto simp: sync_inv_def t_def list_all_length)
    show ?thesis
    proof (cases "t_pc t")
      case TStart
      obtain q perr where qn: "query_New e (t_data t) = (q, perr)" by (cases "query_New e (t_data t)")
      obtain rb bp where g: "GetLarge pick (bpool s) = (rb, bp)" by (cases "GetLarge pick (bpool s)")
      from a have ok: "tiers_ok (bpool s)" by (simp add: sync_inv_def)
      have bp: "tiers_ok bp" using tiers_ok_GetLarge [OF ok, of pick] g by simp
      from a i TStart qn g bp live cnt show ?thesis
        by (simp add: sync_inv_def task_step_def t_def [symmetric] Let_def)
    next
      case TResolve
      show ?thesis
      proof (cases "Resolve e i (t_q t)")
        case (Panics v)
        with a i TResolve live cnt show ?thesis
          by (simp add: sync_inv_def task_step_def t_def [symmetric] Let_def)
      next
        case (Returns x)
        obtain rsize ri err rdata where x: "x = (rsize, ri, err, rdata)" by (cases x) auto
        with Returns a i TResolve live cnt show ?thesis
          by (simp add: sync_inv_def task_step_def t_def [symmetric] Let_def split_beta)
      qed
    next
      case TWrite
      with a i live cnt show ?thesis
        by (simp add: sync_inv_def task_step_def t_def [symmetric] Let_def split_beta
            Conn_Write_closed split: option.splits)
    next
      case TWriteBody
      with a i live cnt show ?thesis
        by (simp add: sync_inv_def task_step_def t_def [symmetric] Let_def split_beta
            Conn_Write_closed)
    next
      case TPut
      with a i live cnt show ?thesis
        by (simp add: sync_inv_def task_step_def t_def [symmetric] Let_def tiers_ok_Put)
    next
      case TRelease
      have h: "length (filter (\<lambda>t. task_holds (t_pc t)) ((tasks s)[i := t\<lparr>t_pc := TDone\<rparr>]))
          = length (filter (\<lambda>t. task_holds (t_pc t)) (tasks s)) - 1"
        using filter_update_drop [OF i, of "\<lambda>t. task_holds (t_pc t)" "t\<lparr>t_pc := TDone\<rparr>"] TRelease
        by (simp add: t_def)
      have h2: "0 < length (filter (\<lambda>t. task_holds (t_pc t)) (tasks s))"
        using filter_update_drop [OF i, of "\<lambda>t. task_holds (t_pc t)" "t\<lparr>t_pc := TDone\<rparr>"] TRelease
        by (auto simp: t_def)
      from a i TRelease live cnt h h2 show ?thesis
        by (simp add: sync_inv_def task_step_def t_def [symmetric] Let_def)
    next
      case TDone
      have h: "int (length (filter (\<lambda>t. t_pc t \<noteq> TFinished) ((tasks s)[i := t\<lparr>t_pc := TFinished\<rparr>])))
          = int (length (filter (\<lambda>t. t_pc t \<noteq> TFinished) (tasks s))) - 1"
        using filter_update_drop [OF i, of "\<lambda>t. t_pc t \<noteq> TFinished" "t\<lparr>t_pc := TFinished\<rparr>"] TDone
        by (simp add: t_def)
      from a i TDone live cnt h show ?thesis
        by (simp add: sync_inv_def task_step_def t_def [symmetric] Let_def)
    next
      case TFinished
      with a i show ?thesis by (simp add: task_step_def t_def [symmetric] Let_def)
    qed
  qed
qed

lemma sync_inv_step: "sync_inv s \<Longrightarrow> sync_inv (step e x s)"
proof (cases x)
  case (Pair tid pick)
  assume "sync_inv s"
  with Pair show ?thesis by (cases tid) (simp_all add: sync_inv_main sync_inv_task)
qed

lemma sync_inv_exec: "sync_inv s \<Longrightarrow> sync_inv (exec e sched s)"
  by (induction sched arbitrary: s) (simp_all add: sync_inv_step)

section \<open>Reachable states\<close>

lemma reached_ok: "tiers_ok (bpool (exec e sched (init r)))"
  using sync_inv_exec [OF sync_inv_init, of e sched r] by (simp add: sync_inv_def)

lemma exec_append: "exec e (xs @ ys) s = exec e ys (exec e xs s)"
  by (induction xs arbitrary: s) simp_all

lemma reached_sync: "sync_inv (exec e sched (init r))"
  by (rule sync_inv_exec [OF sync_inv_init])

lemma main_step_keeps_task:
  "i < length (tasks s) \<Longrightarrow>
   tasks (main_step e pick s) ! i = tasks s ! i \<and> i < length (tasks (main_step e pick s))"
proof -
  assume i: "i < length (tasks s)"
  show ?thesis
  proof (cases "main s")
    case MRead
    obtain buf bp where g: "GetLarge pick (bpool s) = (buf, bp)" by (cases "GetLarge pick (bpool s)")
    show ?thesis
    proof (cases "readTCP (rd (conn_of s)) buf")
      case (Panics v)
      with i MRead g show ?thesis by (simp add: main_step_def)
    next
      case (Returns x)
      obtain qsize err d r where x: "x = ((qsize, err), d, r)" by (cases x) auto
      with i MRead g Returns show ?thesis
        by (cases err) (simp_all add: main_step_def Let_def nth_append)
    qed
  qed (use i in \<open>simp_all add: main_step_def\<close>)
qed

lemma task_step_keeps_task:
  "i < length (tasks s) \<Longrightarrow> j \<noteq> i \<Longrightarrow>
   tasks (task_step e j pick s) ! i = tasks s ! i \<and> i < length (tasks (task_step e j pick s))"
  by (cases "t_pc (tasks s ! j)")
    (auto simp: task_step_def Let_def split_beta split: outcome.splits option.splits)

lemma step_keeps_task:
  "i < length (tasks s) \<Longrightarrow> fst x \<noteq> Suc i \<Longrightarrow>
   tasks (step e x s) ! i = tasks s ! i \<and> i < length (tasks (step e x s))"
proof -
  assume i: "i < length (tasks s)" and n: "fst x \<noteq> Suc i"
  obtain tid pick where x: "x = (tid, pick)" by (cases x)
  show ?thesis
  proof (cases tid)
    case 0
    with x i show ?thesis by (simp add: main_step_keeps_task)
  next
    case (Suc j)
    with x n have "j \<noteq> i" by simp
    with x Suc i show ?thesis by (simp add: task_step_keeps_task)
  qed
qed

lemma exec_keeps_task:
  "i < length (tasks s) \<Longrightarrow> Suc i \<notin> fst ` set sched \<Longrightarrow>
   tasks (exec e sched s) ! i = tasks s ! i \<and> i < length (tasks (exec e sched s))"
proof (induction sched arbitrary: s)
  case Nil
  then show ?case by simp
next
  case (Cons x xs)
  from Cons.prems have n: "fst x \<noteq> Suc i" and r: "Suc i \<notin> fst ` set xs" by auto
  from step_keeps_task [OF Cons.prems(1) n, of e]
  have k: "tasks (step e x s) ! i = tasks s ! i" and l: "i < length (tasks (step e x s))" by simp_all
  from Cons.IH [OF l r] k show ?case by simp
qed

lemma live_task_open:
  "sync_inv s \<Longrightarrow> i < length (tasks s) \<Longrightarrow> t_pc (tasks s ! i) \<noteq> TFinished \<Longrightarrow>
   \<not> c_closed (conn_of s)"
  by (cases "main s") (auto simp: sync_inv_def list_all_length)

lemma holding_task_token:
  "sync_inv s \<Longrightarrow> i < length (tasks s) \<Longrightarrow> task_holds (t_pc (tasks s ! i)) \<Longrightarrow> 0 < inflight s"
proof -
  assume a: "sync_inv s" and i: "i < length (tasks s)" and h: "task_holds (t_pc (tasks s ! i))"
  from i h have "tasks s ! i \<in> set (filter (\<lambda>t. task_holds (t_pc t)) (tasks s))" by simp
  then have "0 < length (filter (\<lambda>t. task_holds (t_pc t)) (tasks s))"
    by (metis length_pos_if_in_set)
  with a show ?thesis by (simp add: sync_inv_def)
qed

lemma task_step_main: "main (task_step e i pick s) = main s"
  by (cases "t_pc (tasks s ! i)")
    (auto simp: task_step_def Let_def split_beta split: outcome.splits option.splits)

lemma task_step_length: "length (tasks (task_step e i pick s)) = length (tasks s)"
  by (cases "t_pc (tasks s ! i)")
    (auto simp: task_step_def Let_def split_beta split: outcome.splits option.splits)

lemma returning_step:
  "returning (main s) = Some ret \<Longrightarrow>
   returning (main (step e x s)) = Some ret \<and> length (tasks (step e x s)) = length (tasks s)"
proof -
  assume a: "returning (main s) = Some ret"
  obtain tid pick where x: "x = (tid, pick)" by (cases x)
  show ?thesis
  proof (cases tid)
    case 0
    with x a show ?thesis by (cases "main s") (simp_all add: main_step_def)
  next
    case (Suc j)
    with x a show ?thesis by (simp add: task_step_main task_step_length)
  qed
qed

lemma returning_exec:
  "returning (main s) = Some ret \<Longrightarrow>
   returning (main (exec e sched s)) = Some ret \<and> length (tasks (exec e sched s)) = length (tasks s)"
proof (induction sched arbitrary: s)
  case Nil
  then show ?case by simp
next
  case (Cons x xs)
  from returning_step [OF Cons.prems, of e x] Cons.IH [of "step e x s"] show ?case by simp
qed

section \<open>The two steps of a write are writeTCP\<close>

text \<open>
  When nothing else runs in between, the two write steps of a goroutine do to the
  connection and to \<open>err\<close> what \<^verbatim>\<open>writeTCP\<close> and the assignment after it do.
\<close>

lemma task_write_is_writeTCP:
  assumes "i < length (tasks s)" and "t_pc (tasks s ! i) = TWrite"
  shows "conn_of (task_step e i p2 (task_step e i p1 s))
       = fst (writeTCP (Write_result e) (conn_of s)
                (take (nat (t_rsize (tasks s ! i))) (t_rdata (tasks s ! i))))
     \<and> t_err (tasks (task_step e i p2 (task_step e i p1 s)) ! i)
         = (if t_err (tasks s ! i) = None
            then snd (writeTCP (Write_result e) (conn_of s)
                       (take (nat (t_rsize (tasks s ! i))) (t_rdata (tasks s ! i))))
            else t_err (tasks s ! i))"
proof -
  define buf where "buf = take (nat (t_rsize (tasks s ! i))) (t_rdata (tasks s ! i))"
  obtain c1 w1 where cw: "Conn_Write (Write_result e) (conn_of s) (put16 (of_nat (length buf))) = (c1, w1)"
    by (cases "Conn_Write (Write_result e) (conn_of s) (put16 (of_nat (length buf)))")
  obtain c2 w2 where cw2: "Conn_Write (Write_result e) c1 buf = (c2, w2)"
    by (cases "Conn_Write (Write_result e) c1 buf")
  show ?thesis
  proof (cases w1)
    case None
    have 1: "task_step e i p1 s = s\<lparr>conn_of := c1, tasks := (tasks s)[i := (tasks s ! i)\<lparr>t_pc := TWriteBody\<rparr>],
        trace := WriteCall i (put16 (of_nat (length buf))) (c_closed (conn_of s)) # trace s\<rparr>"
      using assms cw None by (simp add: task_step_def Let_def buf_def [symmetric])
    show ?thesis
      unfolding 1 using assms cw cw2 None
      by (simp add: task_step_def Let_def buf_def [symmetric] writeTCP_def)
  next
    case (Some er)
    have 1: "task_step e i p1 s = s\<lparr>conn_of := c1,
        tasks := (tasks s)[i := (tasks s ! i)\<lparr>t_err := (if t_err (tasks s ! i) = None then w1 else t_err (tasks s ! i)), t_pc := TPut\<rparr>],
        trace := WriteCall i (put16 (of_nat (length buf))) (c_closed (conn_of s)) # trace s\<rparr>"
      using assms cw Some by (simp add: task_step_def Let_def buf_def [symmetric])
    show ?thesis
      unfolding 1 using assms cw Some
      by (simp add: task_step_def Let_def buf_def [symmetric] writeTCP_def)
  qed
qed

section \<open>Evaluating the concrete run\<close>

lemmas run_simps = demo_env_def demo_parse_def demo_pack_def demo_reader_def demo_sched_def
  frame15_def frame19_def payload19_def init_def
  main_step_def task_step_def readTCP_def ReadFull_def GetLarge_def Pool_Get_def Put_def Pool_Put_def
  NewTieredBufferPool_def make_bytes_def maxTCPSize_def new_task_def Conn_Write_def put16_def
  replyRCode_def RCodeServerFailure_def zero_Query_def zero_ResolveInfo_def Let_def
  show_int_def

lemma step_numeral: "step e (numeral n, pick) s = task_step e (pred_numeral n) pick s"
  by (metis numeral_eq_Suc step.simps(2))

lemma step_1: "step e (1, pick) s = task_step e 0 pick s"
  by (metis One_nat_def step.simps(2))

lemma demo_quiescent: "quiescent (exec demo_env demo_sched (init demo_reader))"
  by (simp add: run_simps step_numeral step_1 quiescent_def)

lemma demo_tasks: "length (tasks (exec demo_env demo_sched (init demo_reader))) = 3"
  by (simp add: run_simps step_numeral step_1)

lemma demo_closed: "c_closed (conn_of (exec demo_env demo_sched (init demo_reader)))"
  by (simp add: run_simps step_numeral step_1)

lemma demo_close_event: "CloseConn \<in> set (trace (exec demo_env demo_sched (init demo_reader)))"
  by (simp add: run_simps step_numeral step_1)

lemmas run_simps2 = run_simps payload14_def payload15_def reader14_def reader15_def
  sched_to_resolve1_def sched_to_resolve2_def panic_env_def panic_sched_def
  idle_sched_def mixed_sched_def reader_reset_def sched_two_started_def fail_env_def

section \<open>The events agree with the control points\<close>

lemma trace_inv_init: "trace_inv k (init r)"
  by (simp add: trace_inv_def init_def expected_def held_tokens_def)

lemma trace_inv_main: "trace_inv k s \<Longrightarrow> trace_inv k (main_step e pick s)"
proof -
  assume a: "trace_inv k s"
  show ?thesis
  proof (cases "main s")
    case MAcquire
    with a show ?thesis
      by (auto simp add: trace_inv_def main_step_def expected_def held_tokens_def)
  next
    case MRead
    obtain buf bp where g: "GetLarge pick (bpool s) = (buf, bp)" by (cases "GetLarge pick (bpool s)")
    show ?thesis
    proof (cases "readTCP (rd (conn_of s)) buf")
      case (Panics v)
      with a MRead g show ?thesis
        by (auto simp add: trace_inv_def main_step_def expected_def held_tokens_def)
    next
      case (Returns x)
      obtain qsize err d r where x: "x = ((qsize, err), d, r)" by (cases x) auto
      with a MRead g Returns show ?thesis
        by (cases err)
          (auto simp add: trace_inv_def main_step_def expected_def held_tokens_def Let_def
            new_task_def nth_append)
    qed
  next
    case (MPut x3)
    with a show ?thesis by (auto simp add: trace_inv_def main_step_def expected_def held_tokens_def)
  next
    case (MRelease x4)
    with a show ?thesis by (auto simp add: trace_inv_def main_step_def expected_def held_tokens_def)
  next
    case (MWait x5)
    with a show ?thesis by (auto simp add: trace_inv_def main_step_def expected_def held_tokens_def)
  next
    case (MClose x6)
    with a show ?thesis by (auto simp add: trace_inv_def main_step_def expected_def held_tokens_def)
  next
    case (MReturned x7)
    with a show ?thesis by (auto simp add: trace_inv_def main_step_def expected_def held_tokens_def)
  next
    case MCrashed
    with a show ?thesis by (auto simp add: trace_inv_def main_step_def expected_def held_tokens_def)
  qed
qed

lemma trace_inv_task: "trace_inv k s \<Longrightarrow> trace_inv k (task_step e i pick s)"
proof -
  assume a: "trace_inv k s"
  show ?thesis
  proof (cases "length (tasks s) \<le> i")
    case True
    with a show ?thesis by (simp add: task_step_def)
  next
    case False
    then have i: "i < length (tasks s)" by simp
    note defs = trace_inv_def task_step_def expected_def held_tokens_def Let_def split_beta
      nth_list_update
    show ?thesis
    proof (cases "t_pc (tasks s ! i)")
      case TStart
      with a i show ?thesis by (auto simp add: defs)
    next
      case TResolve
      show ?thesis
      proof (cases "Resolve e i (t_q (tasks s ! i))")
        case (Panics v)
        with a i TResolve show ?thesis by (auto simp add: defs)
      next
        case (Returns x)
        with a i TResolve show ?thesis by (auto simp add: defs)
      qed
    next
      case TWrite
      with a i show ?thesis by (auto simp add: defs split: option.splits)
    next
      case TWriteBody
      with a i show ?thesis by (auto simp add: defs)
    next
      case TPut
      with a i show ?thesis by (auto simp add: defs)
    next
      case TRelease
      with a i show ?thesis by (auto simp add: defs)
    next
      case TDone
      with a i show ?thesis by (auto simp add: defs)
    next
      case TFinished
      with a i show ?thesis by (simp add: task_step_def Let_def)
    qed
  qed
qed


lemma trace_inv_step: "trace_inv k s \<Longrightarrow> trace_inv k (step e x s)"
proof (cases x)
  case (Pair tid pick)
  assume "trace_inv k s"
  with Pair show ?thesis by (cases tid) (simp_all add: trace_inv_main trace_inv_task)
qed

lemma trace_inv_exec: "trace_inv k s \<Longrightarrow> trace_inv k (exec e sched s)"
  by (induction sched arbitrary: s) (simp_all add: trace_inv_step)

lemma quiescent_expected:
  "quiescent s \<Longrightarrow> j \<le> length (tasks s) \<Longrightarrow> expected s j = Released"
  by (auto simp: quiescent_def expected_def list_all_length split: main_pc.splits)

lemma quiescent_no_holder:
  "quiescent s \<Longrightarrow> sync_inv s \<Longrightarrow> inflight s = 0"
proof -
  assume q: "quiescent s" and a: "sync_inv s"
  from q have "filter (\<lambda>t. task_holds (t_pc t)) (tasks s) = []"
    by (auto simp: quiescent_def list_all_iff filter_empty_conv)
  moreover from q have "\<not> main_holds (main s)"
    by (auto simp: quiescent_def split: main_pc.splits)
  ultimately show ?thesis using a by (simp add: sync_inv_def)
qed

section \<open>Nothing happens after the close\<close>

lemma close_inv_init: "close_inv (init r)"
  by (simp add: close_inv_def init_def)

lemma step_after_close:
  "sync_inv s \<Longrightarrow> c_closed (conn_of s) \<Longrightarrow> step e x s = s"
proof -
  assume a: "sync_inv s" and c: "c_closed (conn_of s)"
  obtain tid pick where x: "x = (tid, pick)" by (cases x)
  from a c obtain ret where m: "main s = MReturned ret"
    by (cases "main s") (simp_all add: sync_inv_def)
  with a have fin: "list_all (\<lambda>t. t_pc t = TFinished) (tasks s)"
    by (simp add: sync_inv_def)
  show ?thesis
  proof (cases tid)
    case 0
    with x m show ?thesis by (simp add: main_step_def)
  next
    case (Suc i)
    with x fin show ?thesis
      by (auto simp: task_step_def Let_def list_all_length)
  qed
qed

lemma close_last_cons: "CloseConn \<notin> set evs \<Longrightarrow> close_last (ev # evs)"
  by simp

lemma close_last_open: "CloseConn \<notin> set evs \<Longrightarrow> close_last evs"
  by (cases evs) simp_all

lemma close_inv_main:
  "sync_inv s \<Longrightarrow> close_inv s \<Longrightarrow> \<not> c_closed (conn_of s) \<Longrightarrow> close_inv (main_step e pick s)"
proof -
  assume sy: "sync_inv s" and a: "close_inv s" and o: "\<not> c_closed (conn_of s)"
  from a o have nc: "CloseConn \<notin> set (trace s)" by (simp add: close_inv_def)
  note cl = close_last_open [OF nc]
  show ?thesis
  proof (cases "main s")
    case MAcquire
    with a o nc show ?thesis by (auto simp add: close_inv_def main_step_def)
  next
    case MRead
    obtain buf bp where g: "GetLarge pick (bpool s) = (buf, bp)" by (cases "GetLarge pick (bpool s)")
    show ?thesis
    proof (cases "readTCP (rd (conn_of s)) buf")
      case (Panics v)
      with a o nc MRead g show ?thesis by (auto simp add: close_inv_def main_step_def)
    next
      case (Returns x)
      obtain qsize err d r where x: "x = ((qsize, err), d, r)" by (cases x) auto
      with a o nc MRead g Returns show ?thesis
        by (cases err)
          (auto simp add: close_inv_def main_step_def Let_def new_task_def nth_append)
    qed
  next
    case (MPut x3)
    with a o nc show ?thesis by (auto simp add: close_inv_def main_step_def)
  next
    case (MRelease x4)
    with a o nc show ?thesis by (auto simp add: close_inv_def main_step_def)
  next
    case (MWait x5)
    with a o nc show ?thesis by (auto simp add: close_inv_def main_step_def)
  next
    case (MClose x6)
    with a o nc show ?thesis by (auto simp add: close_inv_def main_step_def)
  next
    case (MReturned x7)
    with a o nc show ?thesis by (auto simp add: close_inv_def main_step_def)
  next
    case MCrashed
    with a o nc show ?thesis by (auto simp add: close_inv_def main_step_def)
  qed
qed

lemma close_inv_task:
  "sync_inv s \<Longrightarrow> close_inv s \<Longrightarrow> \<not> c_closed (conn_of s) \<Longrightarrow> close_inv (task_step e i pick s)"
proof -
  assume sy: "sync_inv s" and a: "close_inv s" and o: "\<not> c_closed (conn_of s)"
  from a o have nc: "CloseConn \<notin> set (trace s)" by (simp add: close_inv_def)
  show ?thesis
  proof (cases "length (tasks s) \<le> i")
    case True
    with a show ?thesis by (simp add: task_step_def)
  next
    case False
    then have i: "i < length (tasks s)" by simp
    note defs = close_inv_def task_step_def Let_def split_beta nth_list_update Conn_Write_closed
    show ?thesis
    proof (cases "t_pc (tasks s ! i)")
      case TStart
      with a o nc i show ?thesis by (auto simp add: defs)
    next
      case TResolve
      show ?thesis
      proof (cases "Resolve e i (t_q (tasks s ! i))")
        case (Panics v)
        with a o nc i TResolve show ?thesis by (auto simp add: defs)
      next
        case (Returns x)
        with a o nc i TResolve show ?thesis by (auto simp add: defs)
      qed
    next
      case TWrite
      with a o nc i show ?thesis by (auto simp add: defs split: option.splits)
    next
      case TWriteBody
      with a o nc i show ?thesis by (auto simp add: defs)
    next
      case TPut
      with a o nc i show ?thesis by (auto simp add: defs)
    next
      case TRelease
      with a o nc i show ?thesis by (auto simp add: defs)
    next
      case TDone
      with a o nc i show ?thesis by (auto simp add: defs)
    next
      case TFinished
      with a i show ?thesis by (simp add: task_step_def Let_def)
    qed
  qed
qed

lemma close_inv_step: "sync_inv s \<Longrightarrow> close_inv s \<Longrightarrow> close_inv (step e x s)"
proof (cases "c_closed (conn_of s)")
  case True
  assume "sync_inv s" "close_inv s"
  with True show ?thesis by (simp add: step_after_close)
next
  case False
  assume a: "sync_inv s" "close_inv s"
  obtain tid pick where x: "x = (tid, pick)" by (cases x)
  with a False show ?thesis by (cases tid) (simp_all add: close_inv_main close_inv_task)
qed

lemma close_inv_exec: "sync_inv s \<Longrightarrow> close_inv s \<Longrightarrow> close_inv (exec e sched s)"
  by (induction sched arbitrary: s) (simp_all add: close_inv_step sync_inv_step)

section \<open>Every goroutine reaches its end, and so does the loop once it has left\<close>

lemma task_rank_le: "task_rank pc \<le> 7"
  by (cases pc) simp_all

lemma task_rank_finished: "7 \<le> task_rank pc \<Longrightarrow> pc = TFinished"
  by (cases pc) simp_all

lemma task_step_advances:
  assumes "sync_inv s" and "i < length (tasks s)" and "t_pc (tasks s ! i) \<noteq> TFinished"
  shows "task_rank (t_pc (tasks s ! i)) < task_rank (t_pc (tasks (task_step e i pick s) ! i))"
proof (cases "t_pc (tasks s ! i)")
  case TRelease
  then have "0 < inflight s" using holding_task_token [OF assms(1,2)] by simp
  with TRelease assms(2) show ?thesis by (simp add: task_step_def Let_def)
next
  case TFinished
  with assms(3) show ?thesis by simp
qed (use assms(2) in \<open>auto simp: task_step_def Let_def split_beta split: outcome.splits option.splits\<close>)

lemma task_step_rank_mono:
  assumes "sync_inv s" and "i < length (tasks s)"
  shows "min 7 (Suc (task_rank (t_pc (tasks s ! i))))
           \<le> task_rank (t_pc (tasks (task_step e i pick s) ! i))"
proof (cases "t_pc (tasks s ! i) = TFinished")
  case True
  with assms(2) show ?thesis by (simp add: task_step_def Let_def)
next
  case False
  from task_step_advances [OF assms False, of e pick] show ?thesis by simp
qed

lemma task_progress:
  "sync_inv s \<Longrightarrow> i < length (tasks s) \<Longrightarrow>
   i < length (tasks (exec e sched s))
   \<and> min 7 (task_rank (t_pc (tasks s ! i)) + steps_of (Suc i) sched)
       \<le> task_rank (t_pc (tasks (exec e sched s) ! i))"
proof (induction sched arbitrary: s)
  case Nil
  then show ?case by (simp add: steps_of_def)
next
  case (Cons x xs)
  have sy: "sync_inv (step e x s)" using Cons.prems(1) by (rule sync_inv_step)
  show ?case
  proof (cases "fst x = Suc i")
    case True
    then obtain pick where x: "x = (Suc i, pick)" by (cases x) auto
    have l: "i < length (tasks (step e x s))"
      using Cons.prems(2) x by (simp add: task_step_length)
    from task_step_rank_mono [OF Cons.prems, of e pick] x
    have m: "min 7 (Suc (task_rank (t_pc (tasks s ! i)))) \<le> task_rank (t_pc (tasks (step e x s) ! i))"
      by simp
    have st: "steps_of (Suc i) (x # xs) = Suc (steps_of (Suc i) xs)"
      using True by (simp add: steps_of_def)
    from Cons.IH [OF sy l] m show ?thesis unfolding st by (simp add: min_def split: if_splits)
  next
    case False
    from step_keeps_task [OF Cons.prems(2) False, of e]
    have k: "tasks (step e x s) ! i = tasks s ! i" and l: "i < length (tasks (step e x s))"
      by simp_all
    have st: "steps_of (Suc i) (x # xs) = steps_of (Suc i) xs"
      using False by (simp add: steps_of_def)
    from Cons.IH [OF sy l] k show ?thesis unfolding st by simp
  qed
qed

lemma task_runs_to_end:
  "sync_inv s \<Longrightarrow> i < length (tasks s) \<Longrightarrow> 7 \<le> steps_of (Suc i) sched \<Longrightarrow>
   i < length (tasks (exec e sched s)) \<and> t_pc (tasks (exec e sched s) ! i) = TFinished"
  using task_progress [of s i e sched] task_rank_finished by fastforce

lemma steps_of_append: "steps_of t (xs @ ys) = steps_of t xs + steps_of t ys"
  by (simp add: steps_of_def)

lemma steps_of_drain: "i < n \<Longrightarrow> 7 \<le> steps_of (Suc i) (drain n)"
proof (induction n)
  case 0
  then show ?case by simp
next
  case (Suc n)
  have d: "drain (Suc n) = drain n @ replicate 7 (Suc n, 0)" by (simp add: drain_def)
  show ?case
  proof (cases "i < n")
    case True
    with Suc.IH show ?thesis by (simp add: d steps_of_append)
  next
    case False
    with Suc.prems have "i = n" by simp
    then show ?thesis by (simp add: d steps_of_append) (simp add: steps_of_def)
  qed
qed

lemma main_not_in_drain: "0 \<notin> fst ` set (drain n)"
  by (auto simp: drain_def)

lemma tasks_only_keep_main:
  "0 \<notin> fst ` set sched \<Longrightarrow>
   main (exec e sched s) = main s \<and> length (tasks (exec e sched s)) = length (tasks s)"
proof (induction sched arbitrary: s)
  case Nil
  then show ?case by simp
next
  case (Cons x xs)
  obtain tid pick where x: "x = (tid, pick)" by (cases x)
  with Cons.prems obtain j where j: "tid = Suc j" by (cases tid) auto
  from Cons.prems have "0 \<notin> fst ` set xs" by simp
  from Cons.IH [OF this, of "step e x s"] x j show ?case
    by (simp add: task_step_main task_step_length)
qed

lemma drained:
  assumes "sync_inv s"
  shows "list_all (\<lambda>t. t_pc t = TFinished) (tasks (exec e (drain (length (tasks s))) s))
     \<and> main (exec e (drain (length (tasks s))) s) = main s"
proof -
  let ?s' = "exec e (drain (length (tasks s))) s"
  have k: "main ?s' = main s" "length (tasks ?s') = length (tasks s)"
    using tasks_only_keep_main [OF main_not_in_drain, of e "length (tasks s)" s] by simp_all
  have "t_pc (tasks ?s' ! i) = TFinished" if "i < length (tasks s)" for i
    using task_runs_to_end [OF assms that steps_of_drain [OF that], of e] by simp
  with k show ?thesis by (simp add: list_all_length)
qed

lemma all_finished_count:
  "list_all (\<lambda>t. t_pc t = TFinished) ts \<Longrightarrow>
   filter (\<lambda>t. t_pc t \<noteq> TFinished) ts = [] \<and> filter (\<lambda>t. task_holds (t_pc t)) ts = []"
  by (induction ts) simp_all

lemma leave_after_drain:
  assumes "sync_inv s" and "main s = MPut ret"
    and "list_all (\<lambda>t. t_pc t = TFinished) (tasks s)"
  shows "quiescent (exec e (replicate 4 (0, 0)) s) \<and> main (exec e (replicate 4 (0, 0)) s) = MReturned ret"
proof -
  from all_finished_count [OF assms(3)] assms(1,2)
  have i: "inflight s = 1" and w: "wg s = 0" by (simp_all add: sync_inv_def)
  have r: "replicate 4 (0, 0 :: nat) = [(0 :: nat, 0), (0, 0), (0, 0), (0, 0)]"
    by (simp add: numeral_eq_Suc)
  from assms(2,3) i w show ?thesis
    by (simp add: r main_step_def quiescent_def)
qed

lemma exit_releases:
  assumes "sync_inv s" and "main s = MRead"
    and "readTCP (rd (conn_of s)) (fst (GetLarge pick (bpool s))) = Returns ((qsize, err), d, r')"
    and "err \<noteq> None \<or> qsize \<le> 14"
  shows "quiescent (exec e (exit_sched pick (length (tasks s))) s)
     \<and> main (exec e (exit_sched pick (length (tasks s))) s)
         = MReturned (case err of
                        Some er \<Rightarrow> if er = EOF then None else Some (New (''TCP read: '' @ Error er))
                      | None \<Rightarrow> Some (New (''query too small: '' @ show_int qsize)))"
proof -
  define s1 where "s1 = main_step e pick s"
  define ret where "ret = (case err of
                        Some er \<Rightarrow> if er = EOF then None else Some (New (''TCP read: '' @ Error er))
                      | None \<Rightarrow> Some (New (''query too small: '' @ show_int qsize)))"
  obtain buf bp where g: "GetLarge pick (bpool s) = (buf, bp)" by (cases "GetLarge pick (bpool s)")
  from assms(2-4) g have m1: "main s1 = MPut ret"
    by (cases err) (simp_all add: s1_def ret_def main_step_def Let_def)
  from assms(2-4) g have t1: "tasks s1 = tasks s"
    by (cases err) (simp_all add: s1_def main_step_def Let_def)
  have sy1: "sync_inv s1" unfolding s1_def using assms(1) by (rule sync_inv_main)
  define s2 where "s2 = exec e (drain (length (tasks s1))) s1"
  have sy2: "sync_inv s2" unfolding s2_def using sy1 by (rule sync_inv_exec)
  from drained [OF sy1, of e] m1
  have f2: "list_all (\<lambda>t. t_pc t = TFinished) (tasks s2)" and m2: "main s2 = MPut ret"
    by (simp_all add: s2_def)
  from leave_after_drain [OF sy2 m2 f2, of e]
  have "quiescent (exec e (replicate 4 (0, 0)) s2) \<and> main (exec e (replicate 4 (0, 0)) s2) = MReturned ret"
    by simp
  then show ?thesis
    by (simp add: exit_sched_def exec_append s2_def s1_def t1 [unfolded s1_def] ret_def)
qed

section \<open>The retry loop of DNS53\<close>

declare read_loop.simps [simp del]

lemma read_loop_bound:
  "retries \<le> maxRetries \<Longrightarrow>
   snd (read_loop qid min_len upstream retries reads) + retries \<le> reads + Suc maxRetries"
proof (induction qid min_len upstream retries reads rule: read_loop.induct)
  case (1 qid min_len upstream retries reads)
  show ?case
  proof (cases "upstream reads")
    case (ReadFails er)
    with "1.prems" show ?thesis by (simp add: read_loop.simps [of qid min_len upstream retries reads])
  next
    case (Datagram d)
    show ?thesis
    proof (cases "maxRetries < Suc retries")
      case True
      with Datagram "1.prems" show ?thesis
        by (simp add: read_loop.simps [of qid min_len upstream retries reads])
    next
      case False
      then have le: "Suc retries \<le> maxRetries" by simp
      show ?thesis
      proof (cases "length d < min_len")
        case True
        from "1.IH"(1) [OF Datagram True False le] Datagram True False show ?thesis
          by (simp add: read_loop.simps [of qid min_len upstream retries reads])
      next
        case short: False
        show ?thesis
        proof (cases "dgram_id d \<noteq> Some qid")
          case True
          from "1.IH"(2) [OF Datagram short True False le] Datagram short True False show ?thesis
            by (simp add: read_loop.simps [of qid min_len upstream retries reads])
        next
          case False
          with Datagram short "1.prems" show ?thesis
            by (simp add: read_loop.simps [of qid min_len upstream retries reads])
        qed
      qed
    qed
  qed
qed

lemma read_loop_short:
  "\<forall>k. \<exists>d. upstream k = Datagram d \<and> length d < min_len \<Longrightarrow> retries \<le> maxRetries \<Longrightarrow>
   fst (read_loop qid min_len upstream retries reads)
     = Inl (New ''max retries exceeded waiting for valid response'')"
proof (induction qid min_len upstream retries reads rule: read_loop.induct)
  case (1 qid min_len upstream retries reads)
  from "1.prems"(1) obtain d where d: "upstream reads = Datagram d" "length d < min_len" by blast
  show ?case
  proof (cases "maxRetries < Suc retries")
    case True
    with d show ?thesis by (simp add: read_loop.simps [of qid min_len upstream retries reads])
  next
    case False
    then have le: "Suc retries \<le> maxRetries" by simp
    from "1.IH"(1) [OF d False "1.prems"(1) le] d False show ?thesis
      by (simp add: read_loop.simps [of qid min_len upstream retries reads])
  qed
qed

lemma read_loop_mismatch:
  "\<forall>k. \<exists>d. upstream k = Datagram d \<and> min_len \<le> length d \<and> dgram_id d \<noteq> Some qid \<Longrightarrow>
   retries \<le> maxRetries \<Longrightarrow>
   fst (read_loop qid min_len upstream retries reads)
     = Inl (New ''max retries exceeded: DNS ID mismatch'')"
proof (induction qid min_len upstream retries reads rule: read_loop.induct)
  case (1 qid min_len upstream retries reads)
  from "1.prems"(1) obtain d where d: "upstream reads = Datagram d" "\<not> length d < min_len"
    "dgram_id d \<noteq> Some qid" by (metis not_less)
  show ?case
  proof (cases "maxRetries < Suc retries")
    case True
    with d show ?thesis by (simp add: read_loop.simps [of qid min_len upstream retries reads])
  next
    case False
    then have le: "Suc retries \<le> maxRetries" by simp
    from "1.IH"(2) [OF d False "1.prems"(1) le] d False show ?thesis
      by (simp add: read_loop.simps [of qid min_len upstream retries reads])
  qed
qed

section \<open>The claims about the TCP listener\<close>

text \<open>
  C2, as the code has it. On every connection, whatever arrives on it, however the
  resolver answers and however the loop and the goroutines interleave:
  the token of every query follows the discipline (acquired once, before \<^verbatim>\<open>p.Resolve\<close>
  is called for it, released at most once and only while held);
  the channel holds as many tokens as were acquired and not yet released, which is one for
  the loop from its send on the channel to its receive (so also while it reads the next
  frame) and one for each goroutine that has not yet run its deferred receive;
  once the function has returned and every goroutine has finished, every iteration has
  released its token and the channel is empty;
  a goroutine that is given seven steps, however interleaved with the others, has finished
  and released its token, whether the query was answered, failed, was answered with
  SERVFAIL or panicked;
  and when the loop reads an error or a frame of 14 bytes or fewer, then after that read,
  the steps of the goroutines and the four last steps of the loop, everything has
  finished, no token is held, and the function has returned its error.
\<close>

theorem admission_token_discipline:
  assumes "s = exec e sched (init r)"
  shows "token_phase k (trace s) \<noteq> None
     \<and> int (inflight s) = held_tokens (trace s)
     \<and> inflight s = (if main_holds (main s) then 1 else 0)
                     + length (filter (\<lambda>t. task_holds (t_pc t)) (tasks s))
     \<and> (quiescent s \<longrightarrow>
          inflight s = 0 \<and> (\<forall>j \<le> length (tasks s). token_phase j (trace s) = Some Released))
     \<and> (i < length (tasks s) \<and> 7 \<le> steps_of (Suc i) later \<longrightarrow>
          t_pc (tasks (exec e later s) ! i) = TFinished
          \<and> token_phase i (trace (exec e later s)) = Some Released)
     \<and> (main s = MRead
          \<and> readTCP (rd (conn_of s)) (fst (GetLarge pick (bpool s))) = Returns ((qsize, err), d, r')
          \<and> (err \<noteq> None \<or> qsize \<le> 14) \<longrightarrow>
          quiescent (exec e (exit_sched pick (length (tasks s))) s)
          \<and> inflight (exec e (exit_sched pick (length (tasks s))) s) = 0
          \<and> main (exec e (exit_sched pick (length (tasks s))) s)
              = MReturned (case err of
                             Some er \<Rightarrow> if er = EOF then None
                                        else Some (New (''TCP read: '' @ Error er))
                           | None \<Rightarrow> Some (New (''query too small: '' @ show_int qsize))))"
proof -
  have sy: "sync_inv s"
    unfolding assms by (rule sync_inv_exec [OF sync_inv_init])
  have tr: "trace_inv j s" for j
    unfolding assms by (rule trace_inv_exec [OF trace_inv_init])
  have 1: "token_phase k (trace s) \<noteq> None"
    using tr [of k] by (simp add: trace_inv_def)
  have 2: "int (inflight s) = held_tokens (trace s)"
    using tr [of k] by (simp add: trace_inv_def)
  have 3: "inflight s = (if main_holds (main s) then 1 else 0)
                     + length (filter (\<lambda>t. task_holds (t_pc t)) (tasks s))"
    using sy by (simp add: sync_inv_def)
  have 4: "inflight s = 0" if "quiescent s"
    using that sy by (rule quiescent_no_holder)
  have 5: "token_phase j (trace s) = Some Released" if "quiescent s" "j \<le> length (tasks s)" for j
    using tr [of j] quiescent_expected [OF that] by (simp add: trace_inv_def)
  have 6: "t_pc (tasks (exec e later s) ! i) = TFinished
          \<and> token_phase i (trace (exec e later s)) = Some Released"
    if "i < length (tasks s)" "7 \<le> steps_of (Suc i) later"
  proof -
    from task_runs_to_end [OF sy that, of e]
    have l: "i < length (tasks (exec e later s))" and f: "t_pc (tasks (exec e later s) ! i) = TFinished"
      by simp_all
    have "trace_inv i (exec e later s)" using tr [of i] by (rule trace_inv_exec)
    with l f show ?thesis by (simp add: trace_inv_def expected_def)
  qed
  have 7: "quiescent (exec e (exit_sched pick (length (tasks s))) s)
          \<and> inflight (exec e (exit_sched pick (length (tasks s))) s) = 0
          \<and> main (exec e (exit_sched pick (length (tasks s))) s)
              = MReturned (case err of
                             Some er \<Rightarrow> if er = EOF then None
                                        else Some (New (''TCP read: '' @ Error er))
                           | None \<Rightarrow> Some (New (''query too small: '' @ show_int qsize)))"
    if "main s = MRead"
      "readTCP (rd (conn_of s)) (fst (GetLarge pick (bpool s))) = Returns ((qsize, err), d, r')"
      "err \<noteq> None \<or> qsize \<le> 14"
  proof -
    note x = exit_releases [OF sy that, of e]
    have "sync_inv (exec e (exit_sched pick (length (tasks s))) s)" using sy by (rule sync_inv_exec)
    with x quiescent_no_holder show ?thesis by blast
  qed
  from 1 2 3 4 5 6 7 show ?thesis by blast
qed

theorem admission_token_discipline_witness:
  "quiescent (exec demo_env demo_sched (init demo_reader))
   \<and> inflight (exec demo_env demo_sched (init demo_reader)) = 0
   \<and> token_phase 0 (trace (exec demo_env demo_sched (init demo_reader))) = Some Released
   \<and> token_phase 1 (trace (exec demo_env demo_sched (init demo_reader))) = Some Released
   \<and> token_phase 2 (trace (exec demo_env demo_sched (init demo_reader))) = Some Released
   \<and> token_phase 3 (trace (exec demo_env demo_sched (init demo_reader))) = Some Released
   \<and> steps_of 2 mixed_sched = 7
   \<and> t_pc (tasks (exec demo_env mixed_sched (exec demo_env sched_to_resolve1 (init demo_reader))) ! 1)
       = TFinished
   \<and> token_phase 1 (trace (exec demo_env mixed_sched
         (exec demo_env sched_to_resolve1 (init demo_reader)))) = Some Released
   \<and> quiescent (exec demo_env (exit_sched 0 0) (exec demo_env [(0, 0)] (init reader_reset)))
   \<and> inflight (exec demo_env (exit_sched 0 0) (exec demo_env [(0, 0)] (init reader_reset))) = 0
   \<and> main (exec demo_env (exit_sched 0 0) (exec demo_env [(0, 0)] (init reader_reset)))
       = MReturned (Some (New ''TCP read: connection reset by peer''))
   \<and> quiescent (exec demo_env (exit_sched 0 0) (exec demo_env [(0, 0)] (init reader14)))
   \<and> main (exec demo_env (exit_sched 0 0) (exec demo_env [(0, 0)] (init reader14)))
       = MReturned (Some (New ''query too small: 14''))"
proof -
  have a: "1 < length (tasks (exec demo_env sched_to_resolve1 (init demo_reader)))"
    and b: "steps_of 2 mixed_sched = 7"
    by (simp_all add: run_simps2 step_numeral step_1 steps_of_def)
  have c: "main (exec demo_env [(0, 0)] (init reader_reset)) = MRead"
    and d: "readTCP (rd (conn_of (exec demo_env [(0, 0)] (init reader_reset))))
         (fst (GetLarge 0 (bpool (exec demo_env [(0, 0)] (init reader_reset)))))
       = Returns ((3, Some (New ''connection reset by peer'')), [0, 9, 1],
           \<lparr>pending = [], rd_err = New ''connection reset by peer''\<rparr>)"
    and t: "length (tasks (exec demo_env [(0, 0)] (init reader_reset))) = 0"
    by (simp_all add: run_simps2)
  have c': "main (exec demo_env [(0, 0)] (init reader14)) = MRead"
    and d': "readTCP (rd (conn_of (exec demo_env [(0, 0)] (init reader14))))
         (fst (GetLarge 0 (bpool (exec demo_env [(0, 0)] (init reader14)))))
       = Returns ((14, None), payload14, \<lparr>pending = [], rd_err = EOF\<rparr>)"
    and t': "length (tasks (exec demo_env [(0, 0)] (init reader14))) = 0"
    by (simp_all add: run_simps2)
  note done_run = admission_token_discipline [OF refl, where k = 0 and e = demo_env
      and sched = demo_sched and r = demo_reader and i = 0 and later = "[]" and pick = 0
      and qsize = 0 and err = None and d = "[]" and r' = demo_reader,
      THEN conjunct2, THEN conjunct2, THEN conjunct2, THEN conjunct1, THEN mp, OF demo_quiescent]
  have 1: "inflight (exec demo_env demo_sched (init demo_reader)) = 0"
    using done_run by simp
  have 2: "token_phase j (trace (exec demo_env demo_sched (init demo_reader))) = Some Released"
    if "j \<le> 3" for j
    using done_run that by (simp add: demo_tasks)
  have two: "1 < length (tasks (exec demo_env sched_to_resolve1 (init demo_reader)))
      \<and> 7 \<le> steps_of (Suc 1) mixed_sched"
    by (simp add: run_simps2 step_numeral step_1 steps_of_def)
  note mixed = admission_token_discipline [OF refl, where k = 0 and e = demo_env
      and sched = sched_to_resolve1 and r = demo_reader and i = 1 and later = mixed_sched
      and pick = 0 and qsize = 0 and err = None and d = "[]" and r' = demo_reader,
      THEN conjunct2, THEN conjunct2, THEN conjunct2, THEN conjunct2, THEN conjunct1, THEN mp,
      OF two]
  have rst: "main (exec demo_env [(0, 0)] (init reader_reset)) = MRead
      \<and> readTCP (rd (conn_of (exec demo_env [(0, 0)] (init reader_reset))))
         (fst (GetLarge 0 (bpool (exec demo_env [(0, 0)] (init reader_reset)))))
       = Returns ((3, Some (New ''connection reset by peer'')), [0, 9, 1],
           \<lparr>pending = [], rd_err = New ''connection reset by peer''\<rparr>)
      \<and> (Some (New ''connection reset by peer'') \<noteq> None \<or> (3 :: int) \<le> 14)"
    using c d by simp
  note reset = admission_token_discipline [OF refl, where k = 0 and e = demo_env
      and sched = "[(0, 0)]" and r = reader_reset and i = 0 and later = "[]" and pick = 0
      and qsize = 3 and err = "Some (New ''connection reset by peer'')" and d = "[0, 9, 1]"
      and r' = "\<lparr>pending = [], rd_err = New ''connection reset by peer''\<rparr>",
      THEN conjunct2, THEN conjunct2, THEN conjunct2, THEN conjunct2, THEN conjunct2, THEN mp,
      OF rst]
  have sml: "main (exec demo_env [(0, 0)] (init reader14)) = MRead
      \<and> readTCP (rd (conn_of (exec demo_env [(0, 0)] (init reader14))))
         (fst (GetLarge 0 (bpool (exec demo_env [(0, 0)] (init reader14)))))
       = Returns ((14, None), payload14, \<lparr>pending = [], rd_err = EOF\<rparr>)
      \<and> (None \<noteq> None \<or> (14 :: int) \<le> 14)"
    using c' d' by simp
  note small = admission_token_discipline [OF refl, where k = 0 and e = demo_env
      and sched = "[(0, 0)]" and r = reader14 and i = 0 and later = "[]" and pick = 0
      and qsize = 14 and err = None and d = payload14
      and r' = "\<lparr>pending = [], rd_err = EOF\<rparr>",
      THEN conjunct2, THEN conjunct2, THEN conjunct2, THEN conjunct2, THEN conjunct2, THEN mp,
      OF sml]
  from demo_quiescent 1 2 [of 0] 2 [of 1] 2 [of 2] 2 [of 3] b mixed reset small t t'
  show ?thesis by (simp add: show_int_def)
qed

text \<open>
  The claim as stated fails where it counts the tokens "after all per-query tasks
  complete": the loop takes the token of the next frame before it reads, so with the only
  goroutine finished and the loop at its read, one token is held.
\<close>

theorem idle_loop_holds_a_token:
  "main (exec demo_env idle_sched (init demo_reader)) = MRead
   \<and> length (tasks (exec demo_env idle_sched (init demo_reader))) = 1
   \<and> list_all (\<lambda>t. t_pc t = TFinished) (tasks (exec demo_env idle_sched (init demo_reader)))
   \<and> inflight (exec demo_env idle_sched (init demo_reader)) = 1"
  by (simp add: run_simps2 step_numeral step_1)

text \<open>
  C3. Whatever the interleaving: when the connection is closed, every goroutine started on
  it has finished; every \<^verbatim>\<open>writeTCP\<close> of a goroutine found the connection open; no
  event follows the close; and when the close has happened, the \<^verbatim>\<open>wg.Done()\<close> of
  every goroutine is among the events before it.
\<close>

theorem close_follows_join:
  "(c_closed (conn_of (exec e sched (init r))) \<longrightarrow>
      list_all (\<lambda>t. t_pc t = TFinished) (tasks (exec e sched (init r))))
   \<and> list_all open_write (trace (exec e sched (init r)))
   \<and> close_last (trace (exec e sched (init r)))
   \<and> (CloseConn \<in> set (trace (exec e sched (init r))) \<longrightarrow>
        (\<forall>i < length (tasks (exec e sched (init r))). WgDone i \<in> set (trace (exec e sched (init r)))))"
proof -
  define s where "s = exec e sched (init r)"
  have sy: "sync_inv s"
    unfolding s_def by (rule sync_inv_exec [OF sync_inv_init])
  have cl: "close_inv s"
    unfolding s_def by (rule close_inv_exec [OF sync_inv_init close_inv_init])
  have 1: "list_all (\<lambda>t. t_pc t = TFinished) (tasks s)" if "c_closed (conn_of s)"
    using that sy by (cases "main s") (simp_all add: sync_inv_def)
  have 2: "list_all open_write (trace s)" "close_last (trace s)"
    using cl by (simp_all add: close_inv_def)
  have 3: "WgDone i \<in> set (trace s)" if "CloseConn \<in> set (trace s)" "i < length (tasks s)" for i
  proof -
    from that(1) cl have "c_closed (conn_of s)" by (auto simp: close_inv_def)
    from 1 [OF this] that(2) have "t_pc (tasks s ! i) = TFinished" by (simp add: list_all_length)
    with cl that(2) show ?thesis by (simp add: close_inv_def)
  qed
  from 1 2 3 show ?thesis unfolding s_def by blast
qed

theorem close_follows_join_witness:
  "c_closed (conn_of (exec demo_env demo_sched (init demo_reader)))
   \<and> list_all (\<lambda>t. t_pc t = TFinished) (tasks (exec demo_env demo_sched (init demo_reader)))
   \<and> CloseConn \<in> set (trace (exec demo_env demo_sched (init demo_reader)))
   \<and> WgDone 0 \<in> set (trace (exec demo_env demo_sched (init demo_reader)))
   \<and> WgDone 1 \<in> set (trace (exec demo_env demo_sched (init demo_reader)))
   \<and> WgDone 2 \<in> set (trace (exec demo_env demo_sched (init demo_reader)))"
proof -
  have c: "CloseConn \<in> set (trace (exec demo_env demo_sched (init demo_reader)))"
    by (rule demo_close_event)
  from close_follows_join [of demo_env demo_sched demo_reader] demo_closed demo_tasks c
  show ?thesis by simp
qed

text \<open>
  C6, as the code has it. The test is \<^verbatim>\<open>qsize <= 14\<close>: when the loop reads a frame
  whose payload has 14 bytes or fewer, the function is from then on about to return
  "query too small: n" and starts no goroutine any more, whatever runs afterwards; when
  it reads a frame of 15 bytes or more (65535 at most), it starts a goroutine with that
  payload and goes back to the head of the loop. A frame of exactly 14 bytes is
  therefore rejected, not admitted.
\<close>

theorem frame_size_guard:
  assumes "s = exec e sched (init r)" and "main s = MRead"
    and "pending (rd (conn_of s)) = put16 (of_nat (length p)) @ p @ rest"
    and "length p \<le> 65535"
  shows "(length p \<le> 14 \<longrightarrow>
            returning (main (exec e later (main_step e pick s)))
              = Some (Some (New (''query too small: '' @ show_int (int (length p)))))
            \<and> length (tasks (exec e later (main_step e pick s))) = length (tasks s))
         \<and> (15 \<le> length p \<longrightarrow>
            main (main_step e pick s) = MAcquire
            \<and> tasks (main_step e pick s)
                = tasks s @ [new_task (fst (GetLarge pick (bpool s))) (int (length p)) p])"
proof -
  obtain buf bp where g: "GetLarge pick (bpool s) = (buf, bp)" by (cases "GetLarge pick (bpool s)")
  have ok: "tiers_ok (bpool s)" using assms(1) by (simp add: reached_ok)
  have cap: "buf_cap buf = 65536" using GetLarge_cap [OF ok, of pick] g by simp
  note rd = readTCP_frame [OF assms(3,4) cap]
  have small: "main (main_step e pick s)
        = MPut (Some (New (''query too small: '' @ show_int (int (length p)))))
      \<and> tasks (main_step e pick s) = tasks s" if "length p \<le> 14"
    using that assms(2) g rd by (simp add: main_step_def Let_def)
  have 1: "returning (main (exec e later (main_step e pick s)))
              = Some (Some (New (''query too small: '' @ show_int (int (length p)))))
            \<and> length (tasks (exec e later (main_step e pick s))) = length (tasks s)"
    if "length p \<le> 14"
    using small [OF that]
      returning_exec [of "main_step e pick s"
        "Some (New (''query too small: '' @ show_int (int (length p))))" e later]
    by simp
  have 2: "main (main_step e pick s) = MAcquire
            \<and> tasks (main_step e pick s)
                = tasks s @ [new_task (fst (GetLarge pick (bpool s))) (int (length p)) p]"
    if "15 \<le> length p"
    using that assms(2) g rd by (simp add: main_step_def Let_def)
  from 1 2 show ?thesis by blast
qed

theorem frame_size_guard_witness:
  "main (exec demo_env [(0, 0)] (init reader14)) = MRead
   \<and> returning (main (exec demo_env [(0, 0), (0, 0), (0, 0), (0, 0)]
        (main_step demo_env 0 (exec demo_env [(0, 0)] (init reader14)))))
       = Some (Some (New ''query too small: 14''))
   \<and> length (tasks (exec demo_env [(0, 0), (0, 0), (0, 0), (0, 0)]
        (main_step demo_env 0 (exec demo_env [(0, 0)] (init reader14))))) = 0
   \<and> main (main_step demo_env 0 (exec demo_env [(0, 0)] (init reader15))) = MAcquire
   \<and> tasks (main_step demo_env 0 (exec demo_env [(0, 0)] (init reader15)))
       = [new_task (make_bytes 65536) 15 payload15]"
proof -
  have m14: "main (exec demo_env [(0, 0)] (init reader14)) = MRead"
    and m15: "main (exec demo_env [(0, 0)] (init reader15)) = MRead"
    by (simp_all add: run_simps2)
  have p14: "pending (rd (conn_of (exec demo_env [(0, 0)] (init reader14))))
      = put16 (of_nat (length payload14)) @ payload14 @ []"
    and p15: "pending (rd (conn_of (exec demo_env [(0, 0)] (init reader15))))
      = put16 (of_nat (length payload15)) @ payload15 @ []"
    by (simp_all add: run_simps2)
  have l: "length payload14 \<le> 65535" "length payload15 \<le> 65535"
    by (simp_all add: payload14_def payload15_def)
  have t14: "tasks (exec demo_env [(0, 0)] (init reader14)) = []"
    and t15: "tasks (exec demo_env [(0, 0)] (init reader15)) = []"
    and g15: "fst (GetLarge 0 (bpool (exec demo_env [(0, 0)] (init reader15)))) = make_bytes 65536"
    by (simp_all add: run_simps2)
  have n: "length payload14 = 14" "length payload15 = 15"
    by (simp_all add: payload14_def payload15_def)
  from frame_size_guard [OF refl m14 p14 l(1), of "[(0, 0), (0, 0), (0, 0), (0, 0)]" 0]
    frame_size_guard [OF refl m15 p15 l(2), of "[]" 0]
    m14 t14 t15 g15 n
  show ?thesis by (simp add: show_int_def)
qed

text \<open>The claim as stated fails: a frame of exactly 14 bytes is rejected.\<close>

theorem frame_of_14_bytes_rejected:
  "main (exec demo_env [(0, 0), (0, 0), (0, 0), (0, 0), (0, 0), (0, 0)] (init reader14))
     = MReturned (Some (New ''query too small: 14''))
   \<and> tasks (exec demo_env [(0, 0), (0, 0), (0, 0), (0, 0), (0, 0), (0, 0)] (init reader14)) = []"
  by (simp add: run_simps2)

text \<open>
  C7. In a goroutine about to call \<^verbatim>\<open>p.Resolve\<close>, when the call returns an error, a
  count that is zero or negative, or a count above 65535: the goroutine goes on to
  \<^verbatim>\<open>writeTCP\<close> with the SERVFAIL message that \<^verbatim>\<open>replyRCode\<close> builds from the query
  (a response with the query's ID, code \<open>RCodeServerFailure\<close>, the query's question and
  no record). Whatever the other threads do in between, its next step is the \<^verbatim>\<open>Write\<close>
  of the two-byte length of that message on the open connection, and, when that call
  succeeds, its step after that is the \<^verbatim>\<open>Write\<close> of the message itself; each call
  that the network lets through appends its bytes to what the peer receives. The two
  calls are separate, so bytes of other goroutines can come between the length and the
  message.
\<close>

theorem servfail_when_resolve_fails:
  assumes "s = exec e sched (init r)"
    and "i < length (tasks s)" and "t_pc (tasks s ! i) = TResolve"
    and "Resolve e i (t_q (tasks s ! i)) = Returns (rsize, ri, err, rdata)"
    and "err \<noteq> None \<or> rsize \<le> 0 \<or> rsize > 65535"
    and "m = pack e \<lparr>m_ID = q_ID (t_q (tasks s ! i)), m_Response = True,
                      m_RCode = RCodeServerFailure,
                      m_Questions = [(q_Name (t_q (tasks s ! i)), q_Type (t_q (tasks s ! i)),
                                      q_Class (t_q (tasks s ! i)))],
                      m_Answers = [], m_Authorities = [], m_Additionals = []\<rparr>"
    and "Suc i \<notin> fst ` set others1" and "s1 = exec e others1 (task_step e i p1 s)"
    and "s2 = task_step e i p2 s1"
    and "Suc i \<notin> fst ` set others2" and "s3 = exec e others2 s2"
    and "s4 = task_step e i p3 s3"
  shows "t_pc (tasks s1 ! i) = TWrite
     \<and> take (nat (t_rsize (tasks s1 ! i))) (t_rdata (tasks s1 ! i)) = m
     \<and> trace s2 = WriteCall i (put16 (of_nat (length m))) False # trace s1
     \<and> conn_of s2 = fst (Conn_Write (Write_result e) (conn_of s1) (put16 (of_nat (length m))))
     \<and> (Write_result e (n_writes (conn_of s1)) = None \<longrightarrow>
          wrote (conn_of s2) = wrote (conn_of s1) @ put16 (of_nat (length m))
          \<and> t_pc (tasks s3 ! i) = TWriteBody
          \<and> trace s4 = WriteCall i m False # trace s3
          \<and> conn_of s4 = fst (Conn_Write (Write_result e) (conn_of s3) m)
          \<and> (Write_result e (n_writes (conn_of s3)) = None \<longrightarrow>
                wrote (conn_of s4) = wrote (conn_of s3) @ m))"
proof -
  define s0 where "s0 = task_step e i p1 s"
  have t0: "tasks s0 ! i = (tasks s ! i)\<lparr>t_rsize := int (length m), t_ri := ri, t_err := err,
      t_rdata := m, t_pc := TWrite\<rparr>" and l0: "i < length (tasks s0)"
    using assms(2-6) by (auto simp: s0_def task_step_def Let_def replyRCode_def maxTCPSize_def)
  from exec_keeps_task [OF l0 assms(7), of e] assms(8)
  have t1: "tasks s1 ! i = tasks s0 ! i" and l1: "i < length (tasks s1)"
    by (simp_all add: s0_def)
  have "s1 = exec e (sched @ (Suc i, p1) # others1) (init r)"
    using assms(1,8) by (simp add: exec_append)
  then have sy1: "sync_inv s1" by (simp add: reached_sync)
  have op1: "\<not> c_closed (conn_of s1)"
    using live_task_open [OF sy1 l1] t1 t0 by simp
  have a: "t_pc (tasks s1 ! i) = TWrite"
    and b: "take (nat (t_rsize (tasks s1 ! i))) (t_rdata (tasks s1 ! i)) = m"
    using t1 t0 by simp_all
  have c: "trace s2 = WriteCall i (put16 (of_nat (length m))) False # trace s1"
    and d: "conn_of s2 = fst (Conn_Write (Write_result e) (conn_of s1) (put16 (of_nat (length m))))"
    using assms(9) l1 a b op1
    by (simp_all add: task_step_def Let_def split_beta split: option.splits)
  have rest: "wrote (conn_of s2) = wrote (conn_of s1) @ put16 (of_nat (length m))
          \<and> t_pc (tasks s3 ! i) = TWriteBody
          \<and> trace s4 = WriteCall i m False # trace s3
          \<and> conn_of s4 = fst (Conn_Write (Write_result e) (conn_of s3) m)
          \<and> (Write_result e (n_writes (conn_of s3)) = None \<longrightarrow>
                wrote (conn_of s4) = wrote (conn_of s3) @ m)"
    if ok: "Write_result e (n_writes (conn_of s1)) = None"
  proof -
    have w2: "wrote (conn_of s2) = wrote (conn_of s1) @ put16 (of_nat (length m))"
      using d op1 ok by (simp add: Conn_Write_def)
    have t2: "tasks s2 ! i = (tasks s1 ! i)\<lparr>t_pc := TWriteBody\<rparr>" and l2: "i < length (tasks s2)"
      using assms(9) l1 a b op1 ok
      by (simp_all add: task_step_def Let_def split_beta Conn_Write_def)
    from exec_keeps_task [OF l2 assms(10), of e] assms(11)
    have t3: "tasks s3 ! i = tasks s2 ! i" and l3: "i < length (tasks s3)" by simp_all
    have "s3 = exec e (sched @ (Suc i, p1) # others1 @ (Suc i, p2) # others2) (init r)"
      using assms(1,8,9,11) by (simp add: exec_append)
    then have sy3: "sync_inv s3" by (simp add: reached_sync)
    have op3: "\<not> c_closed (conn_of s3)"
      using live_task_open [OF sy3 l3] t3 t2 by simp
    have pc3: "t_pc (tasks s3 ! i) = TWriteBody"
      and b3: "take (nat (t_rsize (tasks s3 ! i))) (t_rdata (tasks s3 ! i)) = m"
      using t3 t2 b by simp_all
    have e4: "trace s4 = WriteCall i m False # trace s3"
      and c4: "conn_of s4 = fst (Conn_Write (Write_result e) (conn_of s3) m)"
      using assms(12) l3 pc3 b3 op3 by (simp_all add: task_step_def Let_def split_beta)
    have w4: "wrote (conn_of s4) = wrote (conn_of s3) @ m"
      if "Write_result e (n_writes (conn_of s3)) = None"
      using c4 op3 that by (simp add: Conn_Write_def)
    from w2 pc3 e4 c4 w4 show ?thesis by blast
  qed
  from a b c d rest show ?thesis by blast
qed


theorem servfail_when_resolve_fails_witness:
  "t_pc (tasks (exec demo_env sched_two_started (init demo_reader)) ! 1) = TResolve
   \<and> Resolve demo_env 1 (t_q (tasks (exec demo_env sched_two_started (init demo_reader)) ! 1))
       = Returns (0, zero_ResolveInfo, Some (New ''upstream timeout''), [])
   \<and> q_Name (t_q (tasks (exec demo_env sched_two_started (init demo_reader)) ! 1)) = [1, 97, 0]
   \<and> wrote (conn_of (task_step demo_env 1 0 (exec demo_env [(1, 0)]
         (task_step demo_env 1 0 (exec demo_env [(1, 0)]
           (task_step demo_env 1 0 (exec demo_env sched_two_started (init demo_reader))))))))
       = [0, 2, 0, 11, 170, 187] @ [0, 9, 128, 2, 1, 97, 0, 0, 1, 0, 1]"
proof -
  define s where "s = exec demo_env sched_two_started (init demo_reader)"
  define s1 where "s1 = exec demo_env [(1, 0)] (task_step demo_env 1 0 s)"
  define s2 where "s2 = task_step demo_env 1 0 s1"
  define s3 where "s3 = exec demo_env [(1, 0)] s2"
  define s4 where "s4 = task_step demo_env 1 0 s3"
  have l: "1 < length (tasks s)" and pc: "t_pc (tasks s ! 1) = TResolve"
    and q: "t_q (tasks s ! 1)
        = \<lparr>q_ID = 9, q_Name = [1, 97, 0], q_Type = 1, q_Class = 1, q_PeerIP = ''192.0.2.7'',
           q_Payload = payload19\<rparr>"
    by (simp_all add: s_def run_simps2 step_numeral step_1)
  have rs: "Resolve demo_env 1 (t_q (tasks s ! 1))
      = Returns (0, zero_ResolveInfo, Some (New ''upstream timeout''), [])"
    by (simp add: demo_env_def)
  have c: "Some (New ''upstream timeout'') \<noteq> None \<or> (0::int) \<le> 0 \<or> (0::int) > 65535" by simp
  have o: "Suc 1 \<notin> fst ` set [(1, 0 :: nat)]" by simp
  have m: "pack demo_env \<lparr>m_ID = q_ID (t_q (tasks s ! 1)), m_Response = True,
                      m_RCode = RCodeServerFailure,
                      m_Questions = [(q_Name (t_q (tasks s ! 1)), q_Type (t_q (tasks s ! 1)),
                                      q_Class (t_q (tasks s ! 1)))],
                      m_Answers = [], m_Authorities = [], m_Additionals = []\<rparr>
      = [0, 9, 128, 2, 1, 97, 0, 0, 1, 0, 1]"
    using q by (simp add: demo_env_def demo_pack_def put16_def RCodeServerFailure_def)
  have w: "Write_result demo_env k = None" for k by (simp add: demo_env_def)
  have w3: "wrote (conn_of s3) = [0, 2, 0, 11, 170, 187]"
    by (simp add: s3_def s2_def s1_def s_def run_simps2 step_numeral step_1)
  note body = servfail_when_resolve_fails [OF s_def l pc rs c refl o s1_def s2_def o s3_def s4_def,
      THEN conjunct2, THEN conjunct2, THEN conjunct2, THEN conjunct2, THEN mp, OF w,
      THEN conjunct2, THEN conjunct2, THEN conjunct2, THEN conjunct2, THEN mp, OF w]
  from body m w3 pc rs q show ?thesis
    by (simp add: s4_def s3_def s2_def s1_def s_def)
qed

text \<open>
  C8, as the code has it. When \<^verbatim>\<open>p.Resolve\<close> panics in a goroutine, the deferred
  function recovers the panic and turns it into an error made of the panic value and the
  stack; the goroutine runs to its end: both buffers go back to the pool, the admission
  token is released, one record with that error is logged, \<^verbatim>\<open>wg.Done()\<close> runs, and the
  loop is not touched. The goroutine skips \<^verbatim>\<open>replyRCode\<close> and \<^verbatim>\<open>writeTCP\<close>: nothing
  is written to the client.
\<close>

theorem panic_is_recovered_without_reply:
  assumes "s = exec e sched (init r)"
    and "i < length (tasks s)" and "t_pc (tasks s ! i) = TResolve"
    and "Resolve e i (t_q (tasks s ! i)) = Panics v"
    and "s' = exec e [(Suc i, p1), (Suc i, p2), (Suc i, p3), (Suc i, p4)] s"
  shows "t_pc (tasks s' ! i) = TFinished
     \<and> t_err (tasks s' ! i) = Some (New (''panic: '' @ v @ '': '' @ Stack e))
     \<and> wrote (conn_of s') = wrote (conn_of s)
     \<and> trace s' = [WgDone i, Release i, ResolveCall i] @ trace s
     \<and> bpool s' = Put (Some (t_rbuf (tasks s ! i))) (Put (Some (t_buf (tasks s ! i))) (bpool s))
     \<and> Suc (inflight s') = inflight s
     \<and> map qi_Error (qlog s') = Some (New (''panic: '' @ v @ '': '' @ Stack e)) # map qi_Error (qlog s)
     \<and> wg s' = wg s - 1
     \<and> main s' = main s \<and> main s' \<noteq> MCrashed"
proof -
  have sy: "sync_inv s" using assms(1) by (simp add: reached_sync)
  have tok: "0 < inflight s"
    using holding_task_token [OF sy assms(2)] assms(3) by simp
  have nc: "main s \<noteq> MCrashed" using sy by (simp add: sync_inv_def)
  from assms(2-5) tok nc show ?thesis
    by (simp add: task_step_def Let_def)
qed

theorem panic_is_recovered_without_reply_witness:
  "t_pc (tasks (exec demo_env sched_to_resolve2 (init demo_reader)) ! 2) = TResolve
   \<and> Resolve demo_env 2 (t_q (tasks (exec demo_env sched_to_resolve2 (init demo_reader)) ! 2))
       = Panics ''boom''
   \<and> t_pc (tasks (exec demo_env [(3, 0), (3, 0), (3, 0), (3, 0)]
         (exec demo_env sched_to_resolve2 (init demo_reader))) ! 2) = TFinished
   \<and> t_err (tasks (exec demo_env [(3, 0), (3, 0), (3, 0), (3, 0)]
         (exec demo_env sched_to_resolve2 (init demo_reader))) ! 2)
       = Some (New ''panic: boom: goroutine 7 [running]'')
   \<and> wrote (conn_of (exec demo_env [(3, 0), (3, 0), (3, 0), (3, 0)]
         (exec demo_env sched_to_resolve2 (init demo_reader))))
       = wrote (conn_of (exec demo_env sched_to_resolve2 (init demo_reader)))"
proof -
  define s where "s = exec demo_env sched_to_resolve2 (init demo_reader)"
  have l: "2 < length (tasks s)" and pc: "t_pc (tasks s ! 2) = TResolve"
    by (simp_all add: s_def run_simps2 step_numeral step_1)
  have rs: "Resolve demo_env 2 (t_q (tasks s ! 2)) = Panics ''boom''"
    by (simp add: demo_env_def)
  have st: "Stack demo_env = ''goroutine 7 [running]''" by (simp add: demo_env_def)
  have e: "exec demo_env [(3, 0), (3, 0), (3, 0), (3, 0)] s
      = exec demo_env [(Suc 2, 0), (Suc 2, 0), (Suc 2, 0), (Suc 2, 0)] s"
    by (simp add: eval_nat_numeral)
  from panic_is_recovered_without_reply [OF s_def l pc rs refl, of 0 0 0 0] pc rs st e
  show ?thesis by (simp add: s_def)
qed

text \<open>
  The claim as stated fails: on a connection with one query whose resolution panics,
  everything has finished and not a byte was sent to the client.
\<close>

theorem panic_leaves_client_without_reply:
  "quiescent (exec panic_env panic_sched (init reader15))
   \<and> wrote (conn_of (exec panic_env panic_sched (init reader15))) = []
   \<and> map qi_Error (qlog (exec panic_env panic_sched (init reader15)))
       = [Some (New ''panic: boom: goroutine 7 [running]'')]"
  by (simp add: run_simps2 step_numeral step_1 quiescent_def)

text \<open>
  C9, as the code has it. When \<^verbatim>\<open>query.New\<close> returns an error, the goroutine logs it
  with \<^verbatim>\<open>p.logErr\<close> and goes on: the loop is not touched, and the next step of the
  goroutine calls \<^verbatim>\<open>p.Resolve\<close> with the query that \<^verbatim>\<open>query.New\<close> returned beside
  the error. After that call the goroutine stands where it would for any query: at
  \<^verbatim>\<open>writeTCP\<close> with the resolver's answer when the call returned no error and a count
  from 1 to 65535; at \<^verbatim>\<open>writeTCP\<close> with the SERVFAIL message built from that query
  when the call returned an error or another count; at its deferred cleanup, the
  connection untouched, when the call panicked.
\<close>

theorem parse_failure_is_logged_and_resolved:
  assumes "s = exec e sched (init r)"
    and "i < length (tasks s)" and "t_pc (tasks s ! i) = TStart"
    and "query_New e (t_data (tasks s ! i)) = (q, Some er)"
    and "s1 = task_step e i p1 s" and "s2 = task_step e i p2 s1"
  shows "errlog s1 = er # errlog s
     \<and> main s1 = main s \<and> main s1 \<noteq> MCrashed
     \<and> t_pc (tasks s1 ! i) = TResolve \<and> t_q (tasks s1 ! i) = q
     \<and> trace s2 = ResolveCall i # trace s1
     \<and> (Resolve e i q = Returns (rsize, ri, None, rdata) \<and> 0 < rsize \<and> rsize \<le> 65535 \<longrightarrow>
          t_pc (tasks s2 ! i) = TWrite
          \<and> take (nat (t_rsize (tasks s2 ! i))) (t_rdata (tasks s2 ! i)) = take (nat rsize) rdata)
     \<and> (Resolve e i q = Returns (rsize, ri, err, rdata)
          \<and> (err \<noteq> None \<or> rsize \<le> 0 \<or> rsize > 65535) \<longrightarrow>
          t_pc (tasks s2 ! i) = TWrite
          \<and> take (nat (t_rsize (tasks s2 ! i))) (t_rdata (tasks s2 ! i))
              = pack e \<lparr>m_ID = q_ID q, m_Response = True, m_RCode = RCodeServerFailure,
                         m_Questions = [(q_Name q, q_Type q, q_Class q)],
                         m_Answers = [], m_Authorities = [], m_Additionals = []\<rparr>)
     \<and> (Resolve e i q = Panics v \<longrightarrow>
          t_pc (tasks s2 ! i) = TPut \<and> conn_of s2 = conn_of s)"
proof -
  have sy: "sync_inv s" using assms(1) by (simp add: reached_sync)
  have nc: "main s \<noteq> MCrashed" using sy by (simp add: sync_inv_def)
  have 1: "errlog s1 = er # errlog s \<and> main s1 = main s \<and> trace s1 = trace s
      \<and> conn_of s1 = conn_of s
      \<and> t_pc (tasks s1 ! i) = TResolve \<and> t_q (tasks s1 ! i) = q \<and> i < length (tasks s1)"
    using assms(2-5) by (simp add: task_step_def Let_def split_beta)
  then have 2: "trace s2 = ResolveCall i # trace s1"
    using assms(6) by (cases "Resolve e i q") (auto simp: task_step_def Let_def split_beta)
  have 3: "t_pc (tasks s2 ! i) = TWrite
          \<and> take (nat (t_rsize (tasks s2 ! i))) (t_rdata (tasks s2 ! i)) = take (nat rsize) rdata"
    if "Resolve e i q = Returns (rsize, ri, None, rdata)" "0 < rsize" "rsize \<le> 65535"
    using 1 that assms(6) by (simp add: task_step_def Let_def maxTCPSize_def)
  have 4: "t_pc (tasks s2 ! i) = TWrite
          \<and> take (nat (t_rsize (tasks s2 ! i))) (t_rdata (tasks s2 ! i))
              = pack e \<lparr>m_ID = q_ID q, m_Response = True, m_RCode = RCodeServerFailure,
                         m_Questions = [(q_Name q, q_Type q, q_Class q)],
                         m_Answers = [], m_Authorities = [], m_Additionals = []\<rparr>"
    if "Resolve e i q = Returns (rsize, ri, err, rdata)" "err \<noteq> None \<or> rsize \<le> 0 \<or> rsize > 65535"
    using 1 that assms(6) by (auto simp: task_step_def Let_def maxTCPSize_def replyRCode_def)
  have 5: "t_pc (tasks s2 ! i) = TPut \<and> conn_of s2 = conn_of s"
    if "Resolve e i q = Panics v"
    using 1 that assms(6) by (simp add: task_step_def Let_def)
  from 3 have i3: "Resolve e i q = Returns (rsize, ri, None, rdata) \<and> 0 < rsize \<and> rsize \<le> 65535 \<longrightarrow>
          t_pc (tasks s2 ! i) = TWrite
          \<and> take (nat (t_rsize (tasks s2 ! i))) (t_rdata (tasks s2 ! i)) = take (nat rsize) rdata"
    by (intro impI) (elim conjE, assumption+)
  from 4 have i4: "Resolve e i q = Returns (rsize, ri, err, rdata)
          \<and> (err \<noteq> None \<or> rsize \<le> 0 \<or> rsize > 65535) \<longrightarrow>
          t_pc (tasks s2 ! i) = TWrite
          \<and> take (nat (t_rsize (tasks s2 ! i))) (t_rdata (tasks s2 ! i))
              = pack e \<lparr>m_ID = q_ID q, m_Response = True, m_RCode = RCodeServerFailure,
                         m_Questions = [(q_Name q, q_Type q, q_Class q)],
                         m_Answers = [], m_Authorities = [], m_Additionals = []\<rparr>"
    by (intro impI) (elim conjE, assumption+)
  from 5 have i5: "Resolve e i q = Panics v \<longrightarrow>
          t_pc (tasks s2 ! i) = TPut \<and> conn_of s2 = conn_of s"
    by (intro impI)
  from 1 2 nc have base: "errlog s1 = er # errlog s
     \<and> main s1 = main s \<and> main s1 \<noteq> MCrashed
     \<and> t_pc (tasks s1 ! i) = TResolve \<and> t_q (tasks s1 ! i) = q
     \<and> trace s2 = ResolveCall i # trace s1"
    by simp
  show ?thesis
    using base i3 i4 i5 by (intro conjI) (elim conjE, assumption)+
qed

theorem parse_failure_is_logged_and_resolved_witness:
  "t_pc (tasks (exec demo_env [(0, 0), (0, 0)] (init reader15)) ! 0) = TStart
   \<and> query_New demo_env (t_data (tasks (exec demo_env [(0, 0), (0, 0)] (init reader15)) ! 0))
       = (zero_Query\<lparr>q_ID := 9, q_Payload := payload15\<rparr>, Some (New ''short message''))
   \<and> errlog (task_step demo_env 0 0 (exec demo_env [(0, 0), (0, 0)] (init reader15)))
       = [New ''short message'']
   \<and> trace (task_step demo_env 0 0 (task_step demo_env 0 0
         (exec demo_env [(0, 0), (0, 0)] (init reader15))))
       = [ResolveCall 0, Acquire 0]
   \<and> t_pc (tasks (task_step demo_env 0 0 (task_step demo_env 0 0
         (exec demo_env [(0, 0), (0, 0)] (init reader15)))) ! 0) = TWrite
   \<and> t_pc (tasks (task_step fail_env 0 0 (task_step fail_env 0 0
         (exec fail_env [(0, 0), (0, 0)] (init reader15)))) ! 0) = TWrite
   \<and> t_pc (tasks (task_step panic_env 0 0 (task_step panic_env 0 0
         (exec panic_env [(0, 0), (0, 0)] (init reader15)))) ! 0) = TPut"
proof -
  define q where "q = zero_Query\<lparr>q_ID := 9, q_Payload := payload15\<rparr>"
  have l: "0 < length (tasks (exec demo_env [(0, 0), (0, 0)] (init reader15)))"
    and pc: "t_pc (tasks (exec demo_env [(0, 0), (0, 0)] (init reader15)) ! 0) = TStart"
    and el: "errlog (exec demo_env [(0, 0), (0, 0)] (init reader15)) = []"
    and qn: "query_New demo_env (t_data (tasks (exec demo_env [(0, 0), (0, 0)] (init reader15)) ! 0))
      = (q, Some (New ''short message''))"
    by (simp_all add: q_def run_simps2)
  have lf: "0 < length (tasks (exec fail_env [(0, 0), (0, 0)] (init reader15)))"
    and pcf: "t_pc (tasks (exec fail_env [(0, 0), (0, 0)] (init reader15)) ! 0) = TStart"
    and qnf: "query_New fail_env (t_data (tasks (exec fail_env [(0, 0), (0, 0)] (init reader15)) ! 0))
      = (q, Some (New ''short message''))"
    by (simp_all add: q_def run_simps2)
  have lp: "0 < length (tasks (exec panic_env [(0, 0), (0, 0)] (init reader15)))"
    and pcp: "t_pc (tasks (exec panic_env [(0, 0), (0, 0)] (init reader15)) ! 0) = TStart"
    and qnp: "query_New panic_env (t_data (tasks (exec panic_env [(0, 0), (0, 0)] (init reader15)) ! 0))
      = (q, Some (New ''short message''))"
    by (simp_all add: q_def run_simps2)
  have r1: "Resolve demo_env 0 q = Returns (2, zero_ResolveInfo, None, [170, 187])
      \<and> (0 :: int) < 2 \<and> (2 :: int) \<le> 65535"
    by (simp add: demo_env_def)
  have r2: "Resolve fail_env 0 q = Returns (0, zero_ResolveInfo, Some (New ''upstream timeout''), [])
      \<and> (Some (New ''upstream timeout'') \<noteq> None \<or> (0 :: int) \<le> 0 \<or> (0 :: int) > 65535)"
    by (simp add: fail_env_def)
  have r3: "Resolve panic_env 0 q = Panics ''boom''"
    by (simp add: panic_env_def)
  note answered = parse_failure_is_logged_and_resolved [OF refl l pc qn refl refl,
      where rsize = 2 and ri = zero_ResolveInfo and rdata = "[170, 187]" and err = None
        and v = "''boom''" and ?p1.0 = 0 and ?p2.0 = 0]
  note failed = parse_failure_is_logged_and_resolved [OF refl lf pcf qnf refl refl,
      where rsize = 0 and ri = zero_ResolveInfo and rdata = "[]"
        and err = "Some (New ''upstream timeout'')" and v = "''boom''" and ?p1.0 = 0 and ?p2.0 = 0,
      THEN conjunct2, THEN conjunct2, THEN conjunct2, THEN conjunct2, THEN conjunct2,
      THEN conjunct2, THEN conjunct2, THEN conjunct1, THEN mp, OF r2]
  note panicked = parse_failure_is_logged_and_resolved [OF refl lp pcp qnp refl refl,
      where rsize = 0 and ri = zero_ResolveInfo and rdata = "[]" and err = None
        and v = "''boom''" and ?p1.0 = 0 and ?p2.0 = 0,
      THEN conjunct2, THEN conjunct2, THEN conjunct2, THEN conjunct2, THEN conjunct2,
      THEN conjunct2, THEN conjunct2, THEN conjunct2, THEN mp, OF r3]
  note ans = answered [THEN conjunct2, THEN conjunct2, THEN conjunct2, THEN conjunct2,
      THEN conjunct2, THEN conjunct2, THEN conjunct1, THEN mp, OF r1]
  have tr: "trace (task_step demo_env 0 0 (exec demo_env [(0, 0), (0, 0)] (init reader15))) = [Acquire 0]"
    by (simp add: run_simps2)
  from answered [THEN conjunct1] answered [THEN conjunct2, THEN conjunct2, THEN conjunct2,
      THEN conjunct2, THEN conjunct2, THEN conjunct1] ans failed panicked pc qn el tr
  show ?thesis by (simp add: q_def)
qed

text \<open>
  The claim as stated fails: a query that could not be parsed is resolved all the same,
  and here the resolver's answer is sent to the client.
\<close>

theorem unparsed_query_is_still_resolved:
  "errlog (exec demo_env [(0, 0), (0, 0), (1, 0), (1, 0), (1, 0), (1, 0)] (init reader15))
     = [New ''short message'']
   \<and> ResolveCall 0
       \<in> set (trace (exec demo_env [(0, 0), (0, 0), (1, 0), (1, 0), (1, 0), (1, 0)] (init reader15)))
   \<and> wrote (conn_of (exec demo_env [(0, 0), (0, 0), (1, 0), (1, 0), (1, 0), (1, 0)] (init reader15)))
       = [0, 2, 170, 187]"
  by (simp add: run_simps2 step_numeral step_1)

text \<open>
  C10. The length prefix is a 16-bit unsigned integer, no value of which is greater than
  \<open>maxTCPSize\<close> = 65535, so the test before "message too large" never succeeds: an
  error \<^verbatim>\<open>readTCP\<close> returns is the one the reader gave, or \<open>ErrUnexpectedEOF\<close> made
  of it by \<^verbatim>\<open>io.ReadFull\<close>; unless the reader itself fails with that very message,
  \<^verbatim>\<open>readTCP\<close> does not return "message too large".
\<close>

theorem readTCP_too_large_unreachable:
  "\<not> (len :: 16 word) > word_of_int maxTCPSize
   \<and> (readTCP r buf = Returns ((n, Some er), d, r') \<longrightarrow> er = rd_err r \<or> er = ErrUnexpectedEOF)
   \<and> (rd_err r \<noteq> New ''message too large'' \<longrightarrow>
        readTCP r buf \<noteq> Returns ((n, Some (New ''message too large'')), d, r'))"
proof -
  have 1: "\<not> len > word_of_int maxTCPSize" by (rule uint16_le_max)
  have 2: "er = rd_err r \<or> er = ErrUnexpectedEOF" if "readTCP r buf = Returns ((n, Some er), d, r')"
    using that by (rule readTCP_err_origin)
  have 3: "readTCP r buf \<noteq> Returns ((n, Some (New ''message too large'')), d, r')"
    if "rd_err r \<noteq> New ''message too large''"
    using readTCP_err_origin [of r buf n "New ''message too large''" d r'] that by auto
  from 1 2 3 show ?thesis by blast
qed

theorem readTCP_too_large_unreachable_witness:
  "rd_err \<lparr>pending = [255, 255, 7], rd_err = EOF\<rparr> \<noteq> New ''message too large''
   \<and> readTCP \<lparr>pending = [255, 255, 7], rd_err = EOF\<rparr> (make_bytes 65536)
       = Returns ((1, Some ErrUnexpectedEOF), [7], \<lparr>pending = [], rd_err = EOF\<rparr>)
   \<and> readTCP \<lparr>pending = [255, 255, 7], rd_err = EOF\<rparr> (make_bytes 65536)
       \<noteq> Returns ((1, Some (New ''message too large'')), [7], \<lparr>pending = [], rd_err = EOF\<rparr>)"
  using readTCP_too_large_unreachable [of 65535 "\<lparr>pending = [255, 255, 7], rd_err = EOF\<rparr>"
      "make_bytes 65536" 1 ErrUnexpectedEOF "[7]" "\<lparr>pending = [], rd_err = EOF\<rparr>"]
  by (simp add: readTCP_def ReadFull_def make_bytes_def maxTCPSize_def)

text \<open>
  C1. The loop of the DNS53 resolver returns after at most 6 reads, whatever the upstream
  sends (the function is total: it always returns). When every datagram is too short the
  error is "max retries exceeded waiting for valid response"; when every datagram is long
  enough and carries a transaction ID other than the query's, the error is
  "max retries exceeded: DNS ID mismatch".
\<close>

theorem DNS53_retries_are_bounded:
  "snd (DNS53_resolve qid min_len upstream) \<le> 6
   \<and> ((\<forall>k. \<exists>d. upstream k = Datagram d \<and> length d < min_len) \<longrightarrow>
        fst (DNS53_resolve qid min_len upstream)
          = Inl (New ''max retries exceeded waiting for valid response''))
   \<and> ((\<forall>k. \<exists>d. upstream k = Datagram d \<and> min_len \<le> length d \<and> dgram_id d \<noteq> Some qid) \<longrightarrow>
        fst (DNS53_resolve qid min_len upstream)
          = Inl (New ''max retries exceeded: DNS ID mismatch''))"
proof -
  have 1: "snd (DNS53_resolve qid min_len upstream) \<le> 6"
    using read_loop_bound [of 0 qid min_len upstream 0]
    by (simp add: DNS53_resolve_def maxRetries_def)
  have 2: "fst (DNS53_resolve qid min_len upstream)
          = Inl (New ''max retries exceeded waiting for valid response'')"
    if "\<forall>k. \<exists>d. upstream k = Datagram d \<and> length d < min_len"
    using read_loop_short [OF that, of 0 qid 0] by (simp add: DNS53_resolve_def)
  have 3: "fst (DNS53_resolve qid min_len upstream)
          = Inl (New ''max retries exceeded: DNS ID mismatch'')"
    if "\<forall>k. \<exists>d. upstream k = Datagram d \<and> min_len \<le> length d \<and> dgram_id d \<noteq> Some qid"
    using read_loop_mismatch [OF that, of 0 0] by (simp add: DNS53_resolve_def)
  from 1 2 3 show ?thesis by blast
qed

theorem DNS53_retries_are_bounded_witness:
  "fst (DNS53_resolve 12345 12 short_upstream)
     = Inl (New ''max retries exceeded waiting for valid response'')
   \<and> snd (DNS53_resolve 12345 12 short_upstream) = 6
   \<and> fst (DNS53_resolve 12345 12 wrong_id_upstream)
     = Inl (New ''max retries exceeded: DNS ID mismatch'')
   \<and> snd (DNS53_resolve 12345 12 wrong_id_upstream) = 6"
proof -
  have s: "\<forall>k. \<exists>d. short_upstream k = Datagram d \<and> length d < 12"
    by (simp add: short_upstream_def)
  have w: "\<forall>k. \<exists>d. wrong_id_upstream k = Datagram d \<and> 12 \<le> length d \<and> dgram_id d \<noteq> Some 12345"
    by (simp add: wrong_id_upstream_def dgram_id_def)
  have n1: "snd (DNS53_resolve 12345 12 short_upstream) = 6"
    by (simp add: DNS53_resolve_def read_loop.simps short_upstream_def maxRetries_def)
  have n2: "snd (DNS53_resolve 12345 12 wrong_id_upstream) = 6"
    by (simp add: DNS53_resolve_def read_loop.simps wrong_id_upstream_def maxRetries_def dgram_id_def)
  from DNS53_retries_are_bounded [of 12345 12 short_upstream]
    DNS53_retries_are_bounded [of 12345 12 wrong_id_upstream] s w n1 n2
  show ?thesis by simp
qed

end
